theory Spec2Isabelle
  imports Main "HOL-Library.Sublist"
begin

section \<open>String operations of the source language\<close>

text \<open>
  The page \<^verbatim>\<open>src/pages/AISummaryWindow.tsx\<close> classifies text with three methods of
  JavaScript strings: \<^verbatim>\<open>includes\<close>, \<^verbatim>\<open>split\<close> and indexing of the array that
  \<^verbatim>\<open>split\<close> returns. They are modelled after the language definition: \<^verbatim>\<open>includes\<close> and
  \<^verbatim>\<open>split\<close> are both defined through the index of the first occurrence of the
  separator. The receiver is the first argument.
\<close>

fun str_indexOf :: "string \<Rightarrow> string \<Rightarrow> nat option" where
  "str_indexOf [] sep = (if sep = [] then Some 0 else None)"
| "str_indexOf (c # cs) sep =
     (if prefix sep (c # cs) then Some 0 else map_option Suc (str_indexOf cs sep))"

definition str_includes :: "string \<Rightarrow> string \<Rightarrow> bool" where
  "str_includes s sep = (str_indexOf s sep \<noteq> None)"

lemma str_indexOf_bound: "str_indexOf s sep = Some i \<Longrightarrow> i + length sep \<le> length s"
proof (induction s arbitrary: i)
  case Nil
  then show ?case by (simp split: if_splits)
next
  case (Cons c cs)
  show ?case
  proof (cases "prefix sep (c # cs)")
    case True
    then have "length sep \<le> length (c # cs)" by (rule prefix_length_le)
    with True Cons.prems show ?thesis by simp
  next
    case False
    with Cons.prems obtain j where "str_indexOf cs sep = Some j" "i = Suc j" by auto
    with Cons.IH show ?thesis by fastforce
  qed
qed

text \<open>
  \<^verbatim>\<open>s.split(sep)\<close>: with an empty separator the string is cut into its characters;
  otherwise the pieces between successive occurrences of the separator, found from left
  to right, each search starting behind the occurrence before.
\<close>

function str_split :: "string \<Rightarrow> string \<Rightarrow> string list" where
  "str_split s sep =
     (if sep = [] then map (\<lambda>c. [c]) s
      else case str_indexOf s sep of
             None \<Rightarrow> [s]
           | Some i \<Rightarrow> take i s # str_split (drop (i + length sep) s) sep)"
  by pat_completeness auto
termination
proof (relation "measure (\<lambda>(s, sep). length s)")
  show "wf (measure (\<lambda>(s, sep). length s))" by simp
next
  fix s sep :: string and i :: nat
  assume "sep \<noteq> []" and "str_indexOf s sep = Some i"
  then have "i + length sep \<le> length s" and "Suc 0 \<le> length sep"
    by (simp_all add: str_indexOf_bound Suc_le_eq)
  then have "length s - (i + length sep) < length s"
    by arith
  then show "((drop (i + length sep) s, sep), (s, sep)) \<in> measure (\<lambda>(s, sep). length s)"
    by simp
qed

declare str_split.simps [simp del]

text \<open>
  Reading an array element gives \<^verbatim>\<open>undefined\<close> out of range (\<open>None\<close>). The empty
  string and \<^verbatim>\<open>undefined\<close> are falsy; \<^verbatim>\<open>x || ''\<close> replaces a falsy \<^verbatim>\<open>x\<close> by the empty
  string; appending \<^verbatim>\<open>undefined\<close> to a string appends the text \<^verbatim>\<open>undefined\<close>.
\<close>

fun at :: "'a list \<Rightarrow> nat \<Rightarrow> 'a option" where
  "at [] n = None"
| "at (x # xs) 0 = Some x"
| "at (x # xs) (Suc n) = at xs n"

fun truthy :: "string option \<Rightarrow> bool" where
  "truthy None = False"
| "truthy (Some s) = (s \<noteq> [])"

fun or_empty :: "string option \<Rightarrow> string" where
  "or_empty None = []"
| "or_empty (Some s) = s"

fun to_str :: "string option \<Rightarrow> string" where
  "to_str None = ''undefined''"
| "to_str (Some s) = s"

section \<open>The streaming classifier: the chunk handler of \<^verbatim>\<open>handleGenerate\<close>\<close>

definition open_tag :: string where
  "open_tag = ''<think>''"

definition close_tag :: string where
  "close_tag = ''</think>''"

text \<open>
  The handler registered with \<^verbatim>\<open>onSummaryChunk\<close> (lines 180 to 226) owns two variables of
  the enclosing call, \<^verbatim>\<open>internalThinkMode\<close> and \<^verbatim>\<open>chunkCount\<close>, and changes the page
  through state setters. Each setter call is an update, applied in the order of the calls.
\<close>

record closure =
  internalThinkMode :: bool
  chunkCount :: nat

datatype update =
    AppendSummary string
  | AppendThink string
  | SetIsThinking bool
  | SetShowThink bool

record view =
  summaryText :: string
  thinkText :: string
  isThinking :: bool
  showThink :: bool

fun apply_update :: "'a view_scheme \<Rightarrow> update \<Rightarrow> 'a view_scheme" where
  "apply_update v (AppendSummary t) = v\<lparr>summaryText := summaryText v @ t\<rparr>"
| "apply_update v (AppendThink t) = v\<lparr>thinkText := thinkText v @ t\<rparr>"
| "apply_update v (SetIsThinking b) = v\<lparr>isThinking := b\<rparr>"
| "apply_update v (SetShowThink b) = v\<lparr>showThink := b\<rparr>"

text \<open>
  Lines 189 to 201: the open tag. The result is the mode, the updates made, and the new
  \<^verbatim>\<open>content\<close>, which is \<^verbatim>\<open>parts[1]\<close> when the tag was found.
\<close>

definition detect_open :: "bool \<Rightarrow> string \<Rightarrow> bool \<times> update list \<times> string option" where
  "detect_open mode content =
     (if str_includes content open_tag then
        (let parts = str_split content open_tag in
           (True,
            (if truthy (at parts 0) then [AppendSummary (to_str (at parts 0))] else [])
              @ [SetIsThinking True, SetShowThink True],
            at parts 1))
      else (mode, [], Some content))"

text \<open>
  Lines 203 to 222: the close tag, then the text without a close tag. The close tag is
  looked for whatever the mode is.
\<close>

definition detect_close :: "bool \<Rightarrow> string \<Rightarrow> bool \<times> update list" where
  "detect_close mode content =
     (if str_includes content close_tag then
        (let parts = str_split content close_tag;
             thinkPart = to_str (at parts 0);
             summaryPart = or_empty (at parts 1)
         in (False,
             [SetIsThinking False, SetShowThink False,
              AppendThink thinkPart, AppendSummary summaryPart]))
      else if mode then (mode, [AppendThink content])
      else (mode, [AppendSummary content]))"

text \<open>
  The whole handler. Were \<^verbatim>\<open>parts[1]\<close> undefined, \<^verbatim>\<open>content.includes\<close> would raise a
  TypeError, which the handler's own \<^verbatim>\<open>try\<close>/\<^verbatim>\<open>catch\<close> logs: the updates made so far stay.
\<close>

definition onSummaryChunk :: "closure \<Rightarrow> string \<Rightarrow> closure \<times> update list" where
  "onSummaryChunk cl chunk =
     (let cl1 = cl\<lparr>chunkCount := chunkCount cl + 1\<rparr>;
          (mode1, ups1, content) = detect_open (internalThinkMode cl1) chunk
      in case content of
           None \<Rightarrow> (cl1\<lparr>internalThinkMode := mode1\<rparr>, ups1)
         | Some c \<Rightarrow>
             (let (mode2, ups2) = detect_close mode1 c
              in (cl1\<lparr>internalThinkMode := mode2\<rparr>, ups1 @ ups2)))"

definition deliver :: "closure \<times> 'a view_scheme \<Rightarrow> string \<Rightarrow> closure \<times> 'a view_scheme" where
  "deliver st chunk =
     (let (cl', ups) = onSummaryChunk (fst st) chunk
      in (cl', foldl apply_update (snd st) ups))"

text \<open>
  \<^verbatim>\<open>handleGenerate\<close> clears both texts and both flags (lines 149 to 152) and starts the
  handler in normal mode (lines 177 and 178).
\<close>

definition init_closure :: closure where
  "init_closure = \<lparr>internalThinkMode = False, chunkCount = 0\<rparr>"

definition init_view :: view where
  "init_view = \<lparr>summaryText = [], thinkText = [], isThinking = False, showThink = True\<rparr>"

definition stream_run :: "string list \<Rightarrow> closure \<times> view" where
  "stream_run chunks = foldl deliver (init_closure, init_view) chunks"

text \<open>
  The updates of a whole run in the order of the setter calls, and the text each update
  adds to the summary buffer, to the think buffer, and to either of them.
\<close>

fun summary_part :: "update \<Rightarrow> string" where
  "summary_part (AppendSummary t) = t"
| "summary_part (AppendThink t) = []"
| "summary_part (SetIsThinking b) = []"
| "summary_part (SetShowThink b) = []"

fun think_part :: "update \<Rightarrow> string" where
  "think_part (AppendSummary t) = []"
| "think_part (AppendThink t) = t"
| "think_part (SetIsThinking b) = []"
| "think_part (SetShowThink b) = []"

definition appended :: "update \<Rightarrow> string" where
  "appended u = summary_part u @ think_part u"

fun stream_log :: "closure \<Rightarrow> string list \<Rightarrow> update list" where
  "stream_log cl [] = []"
| "stream_log cl (chunk # chunks) =
     (let (cl', ups) = onSummaryChunk cl chunk in ups @ stream_log cl' chunks)"

section \<open>The one-shot split of a stored summary\<close>

datatype js_error = TypeError

text \<open>
  Lines 602 to 616, the result panel: think content, main content and whether a think
  block was found. Were \<^verbatim>\<open>parts[1]\<close> undefined, \<^verbatim>\<open>rest.split\<close> would raise a TypeError.
\<close>

definition result_split :: "string option \<Rightarrow> js_error + (string \<times> string \<times> bool)" where
  "result_split stored =
     (let content = or_empty stored in
      if str_includes content open_tag \<and> str_includes content close_tag then
        (let parts = str_split content open_tag;
             pre = at parts 0;
             rest = at parts 1
         in case rest of
              None \<Rightarrow> Inl TypeError
            | Some r \<Rightarrow>
                (let parts2 = str_split r close_tag
                 in Inr (to_str (at parts2 0), to_str pre @ or_empty (at parts2 1), True)))
      else Inr ([], content, False))"

text \<open>
  Lines 400 to 407, the copy button: the text handed to the Markdown renderer, or
  \<open>None\<close> when the stored text is falsy and nothing is copied.
\<close>

definition copy_content :: "string option \<Rightarrow> string option" where
  "copy_content stored =
     (if truthy stored then
        (let content = to_str stored in
         if str_includes content open_tag \<and> str_includes content close_tag then
           Some (or_empty (at (str_split content close_tag) 1))
         else Some content)
      else None)"

section \<open>Starting a run: \<^verbatim>\<open>handleGenerate\<close>\<close>

text \<open>
  The configuration service answers the five reads of lines 159 to 172; a missing value is
  \<open>None\<close>. The completion service is outside the page: for a request it delivers chunks
  to the registered handler and then throws, reports a failure, or succeeds with or
  without a result. The type of a result is a parameter.
\<close>

record config =
  aiApiKey :: "string option"
  aiProvider :: "string option"
  aiModel :: "string option"
  aiSummaryDetail :: "string option"
  aiEnableThinking :: "bool option"

record request =
  req_sessionId :: string
  req_timeRangeDays :: int
  req_provider :: string
  req_apiKey :: string
  req_model :: string
  req_detail :: string
  req_customRequirement :: string
  req_sessionName :: string
  req_enableThinking :: bool

datatype 'r outcome = Threw string | Failure "string option" | Success "'r option"

text \<open>
  The messages shown in the error box are fixed texts of the source, in Chinese; each is a
  constructor here: the cleared box, line 163 (the API key is not configured), lines 252
  and 273 (generation failed, with the reason), line 267 (the result is empty).
\<close>

datatype message = NoMessage | ApiKeyMissing | GenerateFailed string | EmptyResult

record 'r page = view +
  sessionId :: string
  sessionName :: string
  timeRangeDays :: int
  customRequirement :: string
  isGenerating :: bool
  error :: message
  result :: "'r option"

datatype 'r effect =
    Subscribe
  | GenerateSummary request
  | Cleanup
  | LoadProviderInfo 'r
  | LoadHistory string

text \<open>
  \<^verbatim>\<open>handleGenerate\<close>, lines 144 to 276, as one step from page to page with the effects
  it has on the services, in order. Without a session it returns at once (line 145; the
  button that calls it is disabled then, line 491). It marks the page as generating and
  clears the last run (lines 147 to 153), reads the API key and returns with a message when
  the key is falsy (lines 159 to 166). Otherwise it registers the chunk handler, sends the
  request with the defaults of lines 235 to 241, and treats the outcome (lines 248 to 275).
  \<^verbatim>\<open>x || d\<close> is \<open>or_default\<close>.
\<close>

fun or_default :: "string option \<Rightarrow> string \<Rightarrow> string" where
  "or_default None d = d"
| "or_default (Some s) d = (if s = [] then d else s)"

definition handleGenerate ::
  "config \<Rightarrow> (request \<Rightarrow> string list \<times> 'r outcome) \<Rightarrow> 'r page \<Rightarrow> 'r page \<times> 'r effect list" where
  "handleGenerate cfg service p =
     (if sessionId p = [] then (p, [])
      else
        (let p1 = p\<lparr>isGenerating := True, error := NoMessage, summaryText := [],
                    thinkText := [], isThinking := False, showThink := True, result := None\<rparr>
         in if \<not> truthy (aiApiKey cfg)
            then (p1\<lparr>error := ApiKeyMissing, isGenerating := False\<rparr>, [])
            else
              (let req = \<lparr>req_sessionId = sessionId p,
                          req_timeRangeDays = timeRangeDays p,
                          req_provider = or_default (aiProvider cfg) ''zhipu'',
                          req_apiKey = to_str (aiApiKey cfg),
                          req_model = or_default (aiModel cfg) ''glm-4.5-flash'',
                          req_detail = or_default (aiSummaryDetail cfg) ''normal'',
                          req_customRequirement = customRequirement p,
                          req_sessionName = sessionName p,
                          req_enableThinking = (aiEnableThinking cfg \<noteq> Some False)\<rparr>;
                   (chunks, out) = service req;
                   p2 = snd (foldl deliver (init_closure, p1) chunks)
               in case out of
                    Threw e \<Rightarrow>
                      (p2\<lparr>error := GenerateFailed e, isGenerating := False\<rparr>,
                       [Subscribe, GenerateSummary req])
                  | Failure e \<Rightarrow>
                      (p2\<lparr>error := GenerateFailed (to_str e), isGenerating := False\<rparr>,
                       [Subscribe, GenerateSummary req, Cleanup])
                  | Success None \<Rightarrow>
                      (p2\<lparr>error := EmptyResult, isGenerating := False\<rparr>,
                       [Subscribe, GenerateSummary req, Cleanup])
                  | Success (Some r) \<Rightarrow>
                      (p2\<lparr>result := Some r, isGenerating := False\<rparr>,
                       [Subscribe, GenerateSummary req, Cleanup,
                        LoadProviderInfo r, LoadHistory (sessionId p)]))))"

section \<open>Notions used to state the properties\<close>

text \<open>
  The number of occurrences of a separator that \<^verbatim>\<open>split\<close> finds in a string, and the
  separators that cannot overlap themselves (no proper non-empty end of the separator is
  also its beginning), as both tags are.
\<close>

definition occurrences :: "string \<Rightarrow> string \<Rightarrow> nat" where
  "occurrences s sep = length (str_split s sep) - 1"

definition unbordered :: "string \<Rightarrow> bool" where
  "unbordered sep = (\<forall>d \<in> {1 ..< length sep}. \<not> prefix (drop d sep) sep)"

text \<open>
  A string without the first occurrence of a separator, and a chunk without the tags that
  lie in it: its first open tag, and the first close tag behind that open tag (or the
  first close tag of the chunk when it has no open tag).
\<close>

definition remove_first :: "string \<Rightarrow> string \<Rightarrow> string" where
  "remove_first s sep =
     (case str_indexOf s sep of
        None \<Rightarrow> s
      | Some i \<Rightarrow> take i s @ drop (i + length sep) s)"

definition without_tags :: "string \<Rightarrow> string" where
  "without_tags chunk =
     (case str_indexOf chunk open_tag of
        None \<Rightarrow> remove_first chunk close_tag
      | Some i \<Rightarrow> take i chunk @ remove_first (drop (i + length open_tag) chunk) close_tag)"

text \<open>
  The pair of buffers at the end of a stream, and the pair that the one-shot split shows
  (the think content and the main content).
\<close>

definition stream_buffers :: "string list \<Rightarrow> string \<times> string" where
  "stream_buffers chunks =
     (thinkText (snd (stream_run chunks)), summaryText (snd (stream_run chunks)))"

definition one_shot :: "string \<Rightarrow> js_error + (string \<times> string)" where
  "one_shot text =
     (case result_split (Some text) of
        Inl e \<Rightarrow> Inl e
      | Inr (thinkContent, mainContent, hasThink) \<Rightarrow> Inr (thinkContent, mainContent))"

text \<open>
  The first open tag of a text comes before its first close tag; true when either tag is
  missing.
\<close>

definition open_before_close :: "string \<Rightarrow> bool" where
  "open_before_close s =
     (case str_indexOf s open_tag of
        None \<Rightarrow> True
      | Some i \<Rightarrow> (case str_indexOf s close_tag of None \<Rightarrow> True | Some j \<Rightarrow> i < j))"

text \<open>A page, two configurations and a completion service to run the start of a run on.\<close>

definition sample_page :: "nat page" where
  "sample_page =
     \<lparr>summaryText = ''old'', thinkText = [], isThinking = False, showThink = True,
      sessionId = ''room'', sessionName = ''Room'', timeRangeDays = 7,
      customRequirement = [], isGenerating = False, error = NoMessage, result = Some 3\<rparr>"

definition sample_config :: "string option \<Rightarrow> config" where
  "sample_config key =
     \<lparr>aiApiKey = key, aiProvider = None, aiModel = None,
      aiSummaryDetail = None, aiEnableThinking = None\<rparr>"

definition sample_service :: "request \<Rightarrow> string list \<times> nat outcome" where
  "sample_service req = ([''<think>a</think>b''], Success (Some 5))"

section \<open>Facts about the string operations and the tags\<close>

lemma str_indexOf_prefix: "str_indexOf s sep = Some i \<Longrightarrow> prefix sep (drop i s)"
proof (induction s arbitrary: i)
  case Nil
  then show ?case by (simp split: if_splits)
next
  case (Cons c cs)
  then show ?case by (cases "prefix sep (c # cs)") auto
qed

lemma str_indexOf_least:
  "str_indexOf s sep = Some i \<Longrightarrow> j < i \<Longrightarrow> \<not> prefix sep (drop j s)"
proof (induction s arbitrary: i j)
  case Nil
  then show ?case by (simp split: if_splits)
next
  case (Cons c cs)
  show ?case
  proof (cases "prefix sep (c # cs)")
    case True
    with Cons.prems show ?thesis by simp
  next
    case False
    with Cons.prems obtain k where k: "str_indexOf cs sep = Some k" "i = Suc k" by auto
    show ?thesis
    proof (cases j)
      case 0
      with False show ?thesis by simp
    next
      case (Suc m)
      with k Cons.prems have "m < k" by simp
      with Cons.IH k have "\<not> prefix sep (drop m cs)" by blast
      with Suc show ?thesis by simp
    qed
  qed
qed

lemma str_indexOf_None_iff:
  "str_indexOf s sep = None \<longleftrightarrow> (\<forall>j. \<not> prefix sep (drop j s))"
proof (induction s)
  case Nil
  then show ?case by simp
next
  case (Cons c cs)
  have "(\<forall>j. \<not> prefix sep (drop j (c # cs))) \<longleftrightarrow>
        \<not> prefix sep (c # cs) \<and> (\<forall>j. \<not> prefix sep (drop j cs))"
  proof
    assume a: "\<forall>j. \<not> prefix sep (drop j (c # cs))"
    have "\<not> prefix sep (c # cs)" using a [rule_format, of 0] by simp
    moreover have "\<not> prefix sep (drop j cs)" for j using a [rule_format, of "Suc j"] by simp
    ultimately show "\<not> prefix sep (c # cs) \<and> (\<forall>j. \<not> prefix sep (drop j cs))" by blast
  next
    assume a: "\<not> prefix sep (c # cs) \<and> (\<forall>j. \<not> prefix sep (drop j cs))"
    show "\<forall>j. \<not> prefix sep (drop j (c # cs))"
    proof
      fix j show "\<not> prefix sep (drop j (c # cs))" using a by (cases j) auto
    qed
  qed
  with Cons show ?case by simp
qed

lemma str_indexOf_SomeI:
  assumes "prefix sep (drop i s)" and "\<forall>j<i. \<not> prefix sep (drop j s)"
  shows "str_indexOf s sep = Some i"
proof -
  from assms(1) have "str_indexOf s sep \<noteq> None"
    by (auto simp: str_indexOf_None_iff)
  then obtain k where k: "str_indexOf s sep = Some k" by blast
  have "\<not> k < i" using assms(2) str_indexOf_prefix [OF k] by blast
  moreover have "\<not> i < k" using str_indexOf_least [OF k] assms(1) by blast
  ultimately show ?thesis using k by simp
qed

lemma str_includes_iff_sublist: "str_includes s sep \<longleftrightarrow> sublist sep s"
proof (induction s)
  case Nil
  then show ?case by (simp add: str_includes_def)
next
  case (Cons c cs)
  then show ?case by (auto simp: str_includes_def sublist_Cons_right)
qed

lemma str_includes_appendI: "str_includes f sep \<Longrightarrow> str_includes (p @ f @ q) sep"
  unfolding str_includes_iff_sublist
  by (meson sublist_appendI sublist_order.order_trans)

lemma str_includes_self: "str_includes (p @ sep @ q) sep"
  by (simp add: str_includes_iff_sublist)

lemma str_indexOf_decomp:
  assumes "str_indexOf s sep = Some i"
  shows "s = take i s @ sep @ drop (i + length sep) s"
proof -
  from str_indexOf_prefix [OF assms] obtain r where r: "drop i s = sep @ r"
    by (auto simp: prefix_def)
  have "drop (i + length sep) s = drop (length sep) (drop i s)"
    by (simp add: add.commute)
  also have "\<dots> = r" by (simp add: r)
  finally have "sep @ drop (i + length sep) s = drop i s" by (simp add: r)
  then have "take i s @ sep @ drop (i + length sep) s = take i s @ drop i s" by simp
  then show ?thesis by simp
qed

lemma str_split_none: "sep \<noteq> [] \<Longrightarrow> \<not> str_includes s sep \<Longrightarrow> str_split s sep = [s]"
  by (simp add: str_split.simps str_includes_def)

lemma str_split_at:
  "sep \<noteq> [] \<Longrightarrow> str_indexOf s sep = Some i \<Longrightarrow>
   str_split s sep = take i s # str_split (drop (i + length sep) s) sep"
  by (subst str_split.simps) simp

lemma str_split_not_Nil: "sep \<noteq> [] \<Longrightarrow> str_split s sep \<noteq> []"
  by (subst str_split.simps) (simp split: option.splits)

lemma occurrences_zero_iff:
  "sep \<noteq> [] \<Longrightarrow> occurrences s sep = 0 \<longleftrightarrow> \<not> str_includes s sep"
proof (cases "str_indexOf s sep")
  case None
  assume "sep \<noteq> []"
  with None show ?thesis
    by (simp add: occurrences_def str_split_none str_includes_def)
next
  case (Some i)
  assume sep: "sep \<noteq> []"
  have "str_split (drop (i + length sep) s) sep \<noteq> []"
    using sep by (rule str_split_not_Nil)
  then have "0 < length (str_split (drop (i + length sep) s) sep)" by simp
  with Some sep show ?thesis
    by (simp add: occurrences_def str_split_at str_includes_def)
qed

lemma occurrences_step:
  assumes "sep \<noteq> []" and "str_indexOf s sep = Some i"
  shows "occurrences s sep = Suc (occurrences (drop (i + length sep) s) sep)"
proof -
  have "str_split (drop (i + length sep) s) sep \<noteq> []"
    using assms(1) by (rule str_split_not_Nil)
  then have "0 < length (str_split (drop (i + length sep) s) sep)" by simp
  with assms show ?thesis
    by (simp add: occurrences_def str_split_at)
qed

lemma occurrences_one:
  assumes "sep \<noteq> []" and "occurrences s sep = 1"
  obtains i where "str_indexOf s sep = Some i"
    and "\<not> str_includes (drop (i + length sep) s) sep"
    and "str_split s sep = [take i s, drop (i + length sep) s]"
proof -
  from assms have "str_includes s sep"
    using occurrences_zero_iff [of sep s] by auto
  then obtain i where i: "str_indexOf s sep = Some i"
    by (auto simp: str_includes_def)
  from occurrences_step [OF assms(1) i] assms(2)
  have "occurrences (drop (i + length sep) s) sep = 0" by simp
  with assms(1) have no: "\<not> str_includes (drop (i + length sep) s) sep"
    by (simp add: occurrences_zero_iff)
  have "str_split s sep = [take i s, drop (i + length sep) s]"
    using assms(1) i no by (simp add: str_split_at str_split_none)
  with i no show ?thesis by (rule that)
qed

lemma prefix_drop_append: "prefix sep (drop j f) \<Longrightarrow> sep \<noteq> [] \<Longrightarrow> prefix sep (drop (length p + j) (p @ f @ q))"
proof -
  assume a: "prefix sep (drop j f)" and sep: "sep \<noteq> []"
  then have "drop j f \<noteq> []" by auto
  then have "j \<le> length f" by simp
  then have "drop (length p + j) (p @ f @ q) = drop j f @ q" by simp
  moreover from a have "prefix sep (drop j f @ q)" by (rule prefix_prefix)
  ultimately show ?thesis by simp
qed

text \<open>An occurrence inside a piece of the text is an occurrence in the text.\<close>

lemma str_indexOf_piece:
  assumes "sep \<noteq> []" and "str_indexOf (p @ f @ q) sep = Some i" and "str_indexOf f sep = Some j"
  shows "i \<le> length p + j"
proof (rule ccontr)
  assume "\<not> i \<le> length p + j"
  then have "length p + j < i" by simp
  from str_indexOf_least [OF assms(2) this]
  have "\<not> prefix sep (drop (length p + j) (p @ f @ q))" .
  moreover have "prefix sep (drop (length p + j) (p @ f @ q))"
    using str_indexOf_prefix [OF assms(3)] assms(1) by (rule prefix_drop_append)
  ultimately show False by blast
qed

lemma str_indexOf_append_le:
  assumes "str_indexOf (a @ sep @ b) sep = Some i"
  shows "i \<le> length a"
proof (rule ccontr)
  assume "\<not> i \<le> length a"
  then have "length a < i" by simp
  from str_indexOf_least [OF assms this] show False by simp
qed

lemma no_include_before:
  assumes "sep \<noteq> []" and "str_indexOf (p @ f @ q) sep = Some i" and "length p + length f \<le> i"
  shows "\<not> str_includes f sep"
proof
  assume "str_includes f sep"
  then obtain j where j: "str_indexOf f sep = Some j" by (auto simp: str_includes_def)
  from str_indexOf_bound [OF j] assms(1) have "j < length f" by (cases sep) auto
  moreover from str_indexOf_piece [OF assms(1,2) j] have "i \<le> length p + j" .
  ultimately show False using assms(3) by simp
qed

lemma index_in_piece:
  assumes "sep \<noteq> []" and "str_indexOf (p @ (x @ sep @ y) @ q) sep = Some (length p + length x)"
  shows "str_indexOf (x @ sep @ y) sep = Some (length x)"
proof -
  have "str_includes (x @ sep @ y) sep" by (rule str_includes_self)
  then obtain j where j: "str_indexOf (x @ sep @ y) sep = Some j" by (auto simp: str_includes_def)
  from str_indexOf_append_le [OF j] have "j \<le> length x" .
  moreover from str_indexOf_piece [OF assms j] have "length x \<le> j" by simp
  ultimately show ?thesis using j by simp
qed

lemma unbordered_no_overlap:
  assumes "unbordered sep" and "prefix sep (drop i s)" and "prefix sep (drop j s)" and "i < j"
  shows "i + length sep \<le> j"
proof (rule ccontr)
  assume "\<not> i + length sep \<le> j"
  then have d: "j - i < length sep" "1 \<le> j - i" using assms(4) by simp_all
  from assms(2) obtain r where r: "drop i s = sep @ r" by (auto simp: prefix_def)
  have "drop j s = drop (j - i) (drop i s)" using assms(4) by simp
  also have "\<dots> = drop (j - i) sep @ r" using d by (simp add: r)
  finally have "prefix sep (drop (j - i) sep @ r)" using assms(3) by simp
  moreover have "prefix (drop (j - i) sep) (drop (j - i) sep @ r)" by simp
  moreover have "length (drop (j - i) sep) \<le> length sep" by simp
  ultimately have "prefix (drop (j - i) sep) sep"
    by (metis prefix_length_prefix)
  moreover have "j - i \<in> {1 ..< length sep}" using d by simp
  ultimately show False using assms(1) by (auto simp: unbordered_def)
qed

lemma occurrences_unique:
  assumes "sep \<noteq> []" and "unbordered sep" and "occurrences (a @ sep @ b) sep = 1"
  shows "str_indexOf (a @ sep @ b) sep = Some (length a) \<and> \<not> str_includes b sep"
proof -
  from occurrences_one [OF assms(1,3)] obtain i where
    i: "str_indexOf (a @ sep @ b) sep = Some i" and
    no: "\<not> str_includes (drop (i + length sep) (a @ sep @ b)) sep" by blast
  from str_indexOf_append_le [OF i] have le: "i \<le> length a" .
  have "i = length a"
  proof (rule ccontr)
    assume "i \<noteq> length a"
    with le have lt: "i < length a" by simp
    have "prefix sep (drop (length a) (a @ sep @ b))" by simp
    with unbordered_no_overlap [OF assms(2) str_indexOf_prefix [OF i] _ lt]
    have "i + length sep \<le> length a" by blast
    then have "drop (i + length sep) (a @ sep @ b) = drop (i + length sep) a @ sep @ b" by simp
    with no str_includes_self show False by metis
  qed
  with i no show ?thesis by simp
qed

lemma unbordered_open_tag: "unbordered open_tag"
proof -
  have "d \<in> {1 ..< 7} \<Longrightarrow> d = 1 \<or> d = 2 \<or> d = 3 \<or> d = 4 \<or> d = 5 \<or> d = 6" for d :: nat
    by auto
  then show ?thesis
    unfolding unbordered_def open_tag_def by (auto simp: drop_Cons')
qed

lemma unbordered_close_tag: "unbordered close_tag"
proof -
  have "d \<in> {1 ..< 8} \<Longrightarrow> d = 1 \<or> d = 2 \<or> d = 3 \<or> d = 4 \<or> d = 5 \<or> d = 6 \<or> d = 7" for d :: nat
    by auto
  then show ?thesis
    unfolding unbordered_def close_tag_def by (auto simp: drop_Cons')
qed

lemma tags_not_Nil: "open_tag \<noteq> []" "close_tag \<noteq> []"
  by (simp_all add: open_tag_def close_tag_def)

lemma length_tags: "length open_tag = 7" "length close_tag = 8"
  by (simp_all add: open_tag_def close_tag_def)

lemma str_includes_concat:
  assumes "f \<in> set fs" and "str_includes f sep"
  shows "str_includes (concat fs) sep"
proof -
  from assms(1) obtain a b where "fs = a @ f # b" by (auto dest: split_list)
  then have "concat fs = concat a @ f @ concat b" by simp
  with assms(2) show ?thesis by (simp add: str_includes_appendI)
qed

lemma at_in_set: "at xs n = Some y \<Longrightarrow> y \<in> set xs"
  by (induction xs n rule: at.induct) auto

lemma str_split_parts_sublist:
  "sep \<noteq> [] \<Longrightarrow> p \<in> set (str_split s sep) \<Longrightarrow> sublist p s"
proof (induction s sep rule: str_split.induct)
  case (1 s sep)
  show ?case
  proof (cases "str_indexOf s sep")
    case None
    with "1.prems" show ?thesis by (simp add: str_split_none str_includes_def)
  next
    case (Some i)
    with "1.prems" have "p = take i s \<or> p \<in> set (str_split (drop (i + length sep) s) sep)"
      by (simp add: str_split_at)
    then show ?thesis
    proof
      assume "p = take i s"
      then show ?thesis by simp
    next
      assume "p \<in> set (str_split (drop (i + length sep) s) sep)"
      with "1.IH" [OF "1.prems"(1) Some "1.prems"(1)]
      have "sublist p (drop (i + length sep) s)" .
      moreover have "sublist (drop (i + length sep) s) s" by simp
      ultimately show ?thesis by (rule sublist_order.order_trans)
    qed
  qed
qed

lemma str_split_shape:
  assumes "sep \<noteq> []" and "str_includes s sep"
  obtains x y rest where "str_split s sep = x # y # rest"
proof -
  from assms(2) obtain i where i: "str_indexOf s sep = Some i"
    by (auto simp: str_includes_def)
  obtain y rest where "str_split (drop (i + length sep) s) sep = y # rest"
    using str_split_not_Nil [OF assms(1)] by (meson list.exhaust)
  with str_split_at [OF assms(1) i] show ?thesis by (simp add: that)
qed

lemma part_not_includes:
  assumes "sep \<noteq> []" and "at (str_split s sep) n = Some y" and "\<not> str_includes s sep'"
  shows "\<not> str_includes y sep'"
proof
  assume "str_includes y sep'"
  then have "sublist sep' y" by (simp add: str_includes_iff_sublist)
  moreover have "sublist y s"
    using assms(1) at_in_set [OF assms(2)] by (rule str_split_parts_sublist)
  ultimately have "sublist sep' s" by (rule sublist_order.order_trans)
  with assms(3) show False by (simp add: str_includes_iff_sublist)
qed

lemma plain_before:
  assumes "sep \<noteq> []" and "str_indexOf (concat as @ rest) sep = Some i"
    and "length (concat as) \<le> i"
  shows "\<forall>f \<in> set as. \<not> str_includes f sep"
proof
  fix f assume "f \<in> set as"
  then obtain a1 a2 where as: "as = a1 @ f # a2" by (auto dest: split_list)
  then have t: "concat as @ rest = concat a1 @ f @ (concat a2 @ rest)" by simp
  have "length (concat a1) + length f \<le> i" using assms(3) as by simp
  with no_include_before [OF assms(1) assms(2) [unfolded t]]
  show "\<not> str_includes f sep" by blast
qed

lemma plain_inside:
  assumes "\<not> str_includes (p @ concat bs @ q) sep"
  shows "\<forall>f \<in> set bs. \<not> str_includes f sep"
proof
  fix f assume f: "f \<in> set bs"
  show "\<not> str_includes f sep"
  proof
    assume "str_includes f sep"
    with f have "str_includes (concat bs) sep" by (rule str_includes_concat)
    then have "str_includes (p @ concat bs @ q) sep" by (rule str_includes_appendI)
    with assms show False by blast
  qed
qed

lemma not_includes_right: "\<not> str_includes (p @ s) sep \<Longrightarrow> \<not> str_includes s sep"
  using str_includes_appendI [of s sep p "[]"] by auto

lemma not_includes_left: "\<not> str_includes (s @ q) sep \<Longrightarrow> \<not> str_includes s sep"
  using str_includes_appendI [of s sep "[]" q] by auto

lemma not_includes_mid: "\<not> str_includes (p @ s @ q) sep \<Longrightarrow> \<not> str_includes s sep"
  using str_includes_appendI [of s sep p q] by auto

lemma str_indexOf_drop:
  assumes "str_indexOf s sep = Some j" and "k \<le> j"
  shows "str_indexOf (drop k s) sep = Some (j - k)"
proof (rule str_indexOf_SomeI)
  show "prefix sep (drop (j - k) (drop k s))"
    using str_indexOf_prefix [OF assms(1)] assms(2) by simp
  show "\<forall>m<j - k. \<not> prefix sep (drop m (drop k s))"
  proof (intro allI impI)
    fix m assume "m < j - k"
    then have "m + k < j" by simp
    from str_indexOf_least [OF assms(1) this] show "\<not> prefix sep (drop m (drop k s))"
      by simp
  qed
qed

lemma close_tag_not_shifted:
  assumes "d \<in> {1 ..< 7}"
  shows "\<not> prefix close_tag (drop d (open_tag @ r))"
proof -
  from assms have "d = 1 \<or> d = 2 \<or> d = 3 \<or> d = 4 \<or> d = 5 \<or> d = 6" by auto
  then show ?thesis by (auto simp: open_tag_def close_tag_def)
qed

lemma close_not_inside_open:
  assumes "prefix open_tag (drop i s)" and "prefix close_tag (drop j s)" and "i < j"
  shows "i + length open_tag \<le> j"
proof (rule ccontr)
  assume "\<not> i + length open_tag \<le> j"
  then have "\<not> i + 7 \<le> j" by (simp add: length_tags)
  with assms(3) have "1 \<le> j - i \<and> j - i < 7" by arith
  then have d: "j - i \<in> {1 ..< 7}" by simp
  from assms(1) obtain r where r: "drop i s = open_tag @ r" by (auto simp: prefix_def)
  have "drop j s = drop (j - i) (drop i s)" using assms(3) by simp
  then have "prefix close_tag (drop (j - i) (open_tag @ r))" using assms(2) r by simp
  with close_tag_not_shifted [OF d] show False by blast
qed

lemma plain_between:
  assumes "sep \<noteq> []" and "str_indexOf (p @ concat bs @ rest) sep = Some i"
    and "length p + length (concat bs) \<le> i"
  shows "\<forall>f \<in> set bs. \<not> str_includes f sep"
proof
  fix f assume "f \<in> set bs"
  then obtain b1 b2 where bs: "bs = b1 @ f # b2" by (auto dest: split_list)
  then have t: "p @ concat bs @ rest = (p @ concat b1) @ f @ (concat b2 @ rest)" by simp
  have "length (p @ concat b1) + length f \<le> i" using assms(3) bs by simp
  with no_include_before [OF assms(1) assms(2) [unfolded t]]
  show "\<not> str_includes f sep" by blast
qed

lemma str_includes_drop: "str_includes (drop m s) sep \<Longrightarrow> str_includes s sep"
  using str_includes_appendI [of "drop m s" sep "take m s" "[]"] by simp

lemma occurrences_drop_le1:
  assumes "sep \<noteq> []" and "occurrences s sep \<le> 1"
  shows "occurrences (drop k s) sep \<le> 1"
proof (rule ccontr)
  assume "\<not> occurrences (drop k s) sep \<le> 1"
  then have two: "2 \<le> occurrences (drop k s) sep" by simp
  then have "occurrences (drop k s) sep \<noteq> 0" by simp
  then have "str_includes (drop k s) sep" by (simp add: occurrences_zero_iff [OF assms(1)])
  then obtain i1 where i1: "str_indexOf (drop k s) sep = Some i1"
    by (auto simp: str_includes_def)
  let ?rest1 = "drop (i1 + length sep) (drop k s)"
  from occurrences_step [OF assms(1) i1] two have "occurrences ?rest1 sep \<noteq> 0" by simp
  then have r1: "str_includes ?rest1 sep" by (simp add: occurrences_zero_iff [OF assms(1)])
  from \<open>str_includes (drop k s) sep\<close> have "str_includes s sep" by (rule str_includes_drop)
  then obtain i0 where i0: "str_indexOf s sep = Some i0" by (auto simp: str_includes_def)
  have "str_indexOf (take k s @ drop k s @ []) sep = Some i0" using i0 by simp
  from str_indexOf_piece [OF assms(1) this i1] have le: "i0 \<le> k + i1"
    by (simp add: min_def split: if_splits)
  from occurrences_step [OF assms(1) i0] assms(2)
  have "occurrences (drop (i0 + length sep) s) sep = 0" by simp
  then have no: "\<not> str_includes (drop (i0 + length sep) s) sep"
    by (simp add: occurrences_zero_iff [OF assms(1)])
  have "?rest1 = drop (k + i1 - i0) (drop (i0 + length sep) s)"
    using le by (simp add: ac_simps)
  with r1 have "str_includes (drop (k + i1 - i0) (drop (i0 + length sep) s)) sep" by simp
  then have "str_includes (drop (i0 + length sep) s) sep" by (rule str_includes_drop)
  with no show False by blast
qed

lemma occurrences_le1_cases:
  assumes "sep \<noteq> []" and "occurrences s sep \<le> 1"
  obtains (none) "\<not> str_includes s sep"
  | (one) i where "str_indexOf s sep = Some i"
      and "str_split s sep = [take i s, drop (i + length sep) s]"
proof (cases "str_includes s sep")
  case False
  then show ?thesis by (rule none)
next
  case True
  with assms have "occurrences s sep = 1"
    using occurrences_zero_iff [OF assms(1), of s] by simp
  from occurrences_one [OF assms(1) this] show ?thesis using one by blast
qed

section \<open>Facts about the chunk handler and the one-shot split\<close>

text \<open>What the handler does with a chunk, by the tags the chunk contains.\<close>

lemma onSummaryChunk_plain:
  assumes "\<not> str_includes f open_tag" and "\<not> str_includes f close_tag"
  shows "onSummaryChunk cl f =
           (cl\<lparr>chunkCount := chunkCount cl + 1\<rparr>,
            [if internalThinkMode cl then AppendThink f else AppendSummary f])"
  using assms by (simp add: onSummaryChunk_def detect_open_def detect_close_def)

lemma onSummaryChunk_open:
  assumes "str_includes f open_tag" and "str_split f open_tag = x # y # rest"
    and "\<not> str_includes y close_tag"
  shows "onSummaryChunk cl f =
           (cl\<lparr>chunkCount := chunkCount cl + 1, internalThinkMode := True\<rparr>,
            (if x \<noteq> [] then [AppendSummary x] else [])
              @ [SetIsThinking True, SetShowThink True, AppendThink y])"
  using assms by (simp add: onSummaryChunk_def detect_open_def detect_close_def)

lemma onSummaryChunk_close:
  assumes "\<not> str_includes f open_tag" and "str_includes f close_tag"
    and "str_split f close_tag = z # w # rest"
  shows "onSummaryChunk cl f =
           (cl\<lparr>chunkCount := chunkCount cl + 1, internalThinkMode := False\<rparr>,
            [SetIsThinking False, SetShowThink False, AppendThink z, AppendSummary w])"
  using assms by (simp add: onSummaryChunk_def detect_open_def detect_close_def)

lemma onSummaryChunk_both:
  assumes "str_includes f open_tag" and "str_split f open_tag = x # r # rest"
    and "str_includes r close_tag" and "str_split r close_tag = y # w # rest'"
  shows "onSummaryChunk cl f =
           (cl\<lparr>chunkCount := chunkCount cl + 1, internalThinkMode := False\<rparr>,
            (if x \<noteq> [] then [AppendSummary x] else [])
              @ [SetIsThinking True, SetShowThink True,
                 SetIsThinking False, SetShowThink False, AppendThink y, AppendSummary w])"
  using assms by (simp add: onSummaryChunk_def detect_open_def detect_close_def)

lemma deliver_plain:
  assumes "\<not> str_includes f open_tag" and "\<not> str_includes f close_tag"
  shows "deliver (cl, v) f =
           (cl\<lparr>chunkCount := chunkCount cl + 1\<rparr>,
            if internalThinkMode cl then v\<lparr>thinkText := thinkText v @ f\<rparr>
            else v\<lparr>summaryText := summaryText v @ f\<rparr>)"
  by (simp add: deliver_def onSummaryChunk_plain [OF assms])

lemma foldl_deliver_plain:
  assumes "\<forall>f \<in> set fs. \<not> str_includes f open_tag \<and> \<not> str_includes f close_tag"
  shows "foldl deliver (cl, v) fs =
           (cl\<lparr>chunkCount := chunkCount cl + length fs\<rparr>,
            if internalThinkMode cl then v\<lparr>thinkText := thinkText v @ concat fs\<rparr>
            else v\<lparr>summaryText := summaryText v @ concat fs\<rparr>)"
  using assms
proof (induction fs arbitrary: cl v)
  case Nil
  then show ?case by simp
next
  case (Cons f fs)
  then show ?case by (simp add: deliver_plain)
qed

lemma deliver_open:
  assumes "str_includes f open_tag" and "str_split f open_tag = x # y # rest"
    and "\<not> str_includes y close_tag"
  shows "deliver (cl, v) f =
           (cl\<lparr>chunkCount := chunkCount cl + 1, internalThinkMode := True\<rparr>,
            v\<lparr>summaryText := summaryText v @ x, isThinking := True, showThink := True,
              thinkText := thinkText v @ y\<rparr>)"
  by (simp add: deliver_def onSummaryChunk_open [OF assms])

lemma deliver_close:
  assumes "\<not> str_includes f open_tag" and "str_includes f close_tag"
    and "str_split f close_tag = z # w # rest"
  shows "deliver (cl, v) f =
           (cl\<lparr>chunkCount := chunkCount cl + 1, internalThinkMode := False\<rparr>,
            v\<lparr>isThinking := False, showThink := False,
              thinkText := thinkText v @ z, summaryText := summaryText v @ w\<rparr>)"
  by (simp add: deliver_def onSummaryChunk_close [OF assms])

lemma deliver_both:
  assumes "str_includes f open_tag" and "str_split f open_tag = x # r # rest"
    and "str_includes r close_tag" and "str_split r close_tag = y # w # rest'"
  shows "deliver (cl, v) f =
           (cl\<lparr>chunkCount := chunkCount cl + 1, internalThinkMode := False\<rparr>,
            v\<lparr>summaryText := summaryText v @ x @ w, isThinking := False, showThink := False,
              thinkText := thinkText v @ y\<rparr>)"
  by (simp add: deliver_def onSummaryChunk_both [OF assms])

lemma stream_run_append: "stream_run (pre @ fs) = foldl deliver (stream_run pre) fs"
  by (simp add: stream_run_def)

lemma fst_deliver: "fst (deliver st f) = fst (onSummaryChunk (fst st) f)"
  by (simp add: deliver_def split: prod.splits)

lemma mode_after_open:
  assumes "str_includes f open_tag" and "\<not> str_includes f close_tag"
  shows "internalThinkMode (fst (onSummaryChunk cl f))"
proof -
  from str_split_shape [OF tags_not_Nil(1) assms(1)]
  obtain x y rest where s: "str_split f open_tag = x # y # rest" by blast
  then have "at (str_split f open_tag) 1 = Some y" by simp
  from part_not_includes [OF tags_not_Nil(1) this assms(2)]
  have "\<not> str_includes y close_tag" .
  from onSummaryChunk_open [OF assms(1) s this] show ?thesis by simp
qed

lemma mode_after_close:
  assumes "str_includes f close_tag" and "\<not> str_includes f open_tag"
  shows "\<not> internalThinkMode (fst (onSummaryChunk cl f))"
proof -
  from str_split_shape [OF tags_not_Nil(2) assms(1)]
  obtain z w rest where s: "str_split f close_tag = z # w # rest" by blast
  from onSummaryChunk_close [OF assms(2) assms(1) s] show ?thesis by simp
qed

text \<open>The failing branch of the handler is never taken.\<close>

lemma detect_open_content_defined: "\<exists>c. snd (snd (detect_open mode f)) = Some c"
proof (cases "str_includes f open_tag")
  case True
  from str_split_shape [OF tags_not_Nil(1) True]
  obtain x y rest where "str_split f open_tag = x # y # rest" by blast
  with True show ?thesis by (simp add: detect_open_def)
next
  case False
  then show ?thesis by (simp add: detect_open_def)
qed

text \<open>The failing branch of the one-shot split is never taken.\<close>

lemma result_split_defined: "\<exists>r. result_split stored = Inr r"
proof (cases "str_includes (or_empty stored) open_tag \<and> str_includes (or_empty stored) close_tag")
  case True
  from str_split_shape [OF tags_not_Nil(1)] True
  obtain x y rest where "str_split (or_empty stored) open_tag = x # y # rest" by blast
  with True show ?thesis by (auto simp: result_split_def Let_def)
next
  case False
  then show ?thesis by (auto simp: result_split_def)
qed

text \<open>A text with one think block: what the one-shot split returns.\<close>

lemma result_split_block:
  assumes "s = pre @ open_tag @ t @ close_tag @ post"
    and "occurrences s open_tag = 1"
    and "occurrences s close_tag = 1"
  shows "result_split (Some s) = Inr (t, pre @ post, True)"
proof -
  let ?rest = "t @ close_tag @ post"
  from occurrences_unique [OF tags_not_Nil(1) unbordered_open_tag, of pre ?rest] assms(1,2)
  have io: "str_indexOf s open_tag = Some (length pre)"
    and no: "\<not> str_includes ?rest open_tag" by simp_all
  have s2: "s = (pre @ open_tag @ t) @ close_tag @ post" by (simp add: assms(1))
  from occurrences_unique [OF tags_not_Nil(2) unbordered_close_tag, of "pre @ open_tag @ t" post]
    assms(3) s2
  have ic: "str_indexOf s close_tag = Some (length (pre @ open_tag @ t))"
    and nc: "\<not> str_includes post close_tag" by simp_all
  have inc_o: "str_includes s open_tag" using io by (simp add: str_includes_def)
  have inc_c: "str_includes s close_tag" using ic by (simp add: str_includes_def)
  have "drop (length pre + length open_tag) s = ?rest" by (simp add: assms(1))
  moreover have "take (length pre) s = pre" by (simp add: assms(1))
  ultimately have so: "str_split s open_tag = [pre, ?rest]"
    using no by (simp add: str_split_at [OF tags_not_Nil(1) io] str_split_none tags_not_Nil)
  have "str_indexOf ((pre @ open_tag) @ (t @ close_tag @ post) @ []) close_tag
      = Some (length (pre @ open_tag) + length t)"
    using ic by (simp add: assms(1))
  from index_in_piece [OF tags_not_Nil(2) this]
  have ir: "str_indexOf ?rest close_tag = Some (length t)" .
  have sr: "str_split ?rest close_tag = [t, post]"
    using nc by (simp add: str_split_at [OF tags_not_Nil(2) ir] str_split_none tags_not_Nil)
  show ?thesis
    by (simp add: result_split_def inc_o inc_c so sr)
qed

lemma stream_run_plain:
  assumes "\<forall>f \<in> set as. \<not> str_includes f open_tag \<and> \<not> str_includes f close_tag"
  shows "stream_run as =
      (init_closure\<lparr>chunkCount := length as\<rparr>, init_view\<lparr>summaryText := concat as\<rparr>)"
  unfolding stream_run_def using assms
  by (simp add: foldl_deliver_plain init_closure_def init_view_def)

text \<open>The open tag in one chunk, the close tag in a later one.\<close>

lemma stream_block_two_chunks:
  assumes fs: "fs = as @ [x @ open_tag @ y] @ bs @ [z @ close_tag @ w] @ cs"
    and oo: "occurrences (concat fs) open_tag = 1"
    and oc: "occurrences (concat fs) close_tag = 1"
  shows "stream_buffers fs = (y @ concat bs @ z, concat as @ x @ w @ concat cs)"
    and "\<not> internalThinkMode (fst (stream_run fs))"
proof -
  let ?f1 = "x @ open_tag @ y" and ?f2 = "z @ close_tag @ w"
  let ?B = "y @ concat bs @ z @ close_tag @ w @ concat cs"
  let ?A' = "concat as @ x @ open_tag @ y @ concat bs @ z"
  have eo: "concat fs = (concat as @ x) @ open_tag @ ?B" by (simp add: fs)
  from occurrences_unique [OF tags_not_Nil(1) unbordered_open_tag oo [unfolded eo]]
  have io: "str_indexOf (concat fs) open_tag = Some (length (concat as) + length x)"
    and no: "\<not> str_includes ?B open_tag" by (simp_all add: eo)
  have ec: "concat fs = ?A' @ close_tag @ (w @ concat cs)" by (simp add: fs)
  from occurrences_unique [OF tags_not_Nil(2) unbordered_close_tag oc [unfolded ec]]
  have ic: "str_indexOf (concat fs) close_tag = Some (length ?A')"
    and nc: "\<not> str_includes (w @ concat cs) close_tag" by (simp_all add: ec)
  \<comment> \<open>the chunks before the open tag\<close>
  have e1: "concat fs = concat as @ (?f1 @ concat bs @ ?f2 @ concat cs)" by (simp add: fs)
  have "\<forall>f \<in> set as. \<not> str_includes f open_tag"
    by (rule plain_before [OF tags_not_Nil(1) io [unfolded e1]]) simp
  moreover have "\<forall>f \<in> set as. \<not> str_includes f close_tag"
    by (rule plain_before [OF tags_not_Nil(2) ic [unfolded e1]]) simp
  ultimately have pa: "\<forall>f \<in> set as. \<not> str_includes f open_tag \<and> \<not> str_includes f close_tag"
    by simp
  \<comment> \<open>the chunk with the open tag\<close>
  have "str_indexOf (concat as @ ?f1 @ (concat bs @ ?f2 @ concat cs)) open_tag
      = Some (length (concat as) + length x)"
    using io by (simp add: fs)
  from index_in_piece [OF tags_not_Nil(1) this]
  have i1: "str_indexOf ?f1 open_tag = Some (length x)" .
  have ny: "\<not> str_includes y open_tag" using no by (rule not_includes_left)
  have s1: "str_split ?f1 open_tag = x # y # []"
    using i1 ny by (simp add: str_split_at str_split_none tags_not_Nil)
  have inc1: "str_includes ?f1 open_tag" by (rule str_includes_self)
  have "str_indexOf ((concat as @ x @ open_tag) @ y @ (concat bs @ ?f2 @ concat cs)) close_tag
      = Some (length ?A')"
    using ic by (simp add: fs)
  from no_include_before [OF tags_not_Nil(2) this]
  have yc: "\<not> str_includes y close_tag" by simp
  \<comment> \<open>the chunks between the tags\<close>
  have "\<forall>f \<in> set bs. \<not> str_includes f open_tag"
    by (rule plain_inside [of y bs "z @ close_tag @ w @ concat cs"]) (rule no)
  moreover have "\<forall>f \<in> set bs. \<not> str_includes f close_tag"
  proof (rule plain_between [OF tags_not_Nil(2)])
    show "str_indexOf ((concat as @ ?f1) @ concat bs @ (?f2 @ concat cs)) close_tag
        = Some (length ?A')"
      using ic by (simp add: fs)
    show "length (concat as @ ?f1) + length (concat bs) \<le> length ?A'" by simp
  qed
  ultimately have pb: "\<forall>f \<in> set bs. \<not> str_includes f open_tag \<and> \<not> str_includes f close_tag"
    by simp
  \<comment> \<open>the chunk with the close tag\<close>
  have "\<not> str_includes ((y @ concat bs) @ ?f2 @ concat cs) open_tag" using no by simp
  then have n2: "\<not> str_includes ?f2 open_tag" by (rule not_includes_mid)
  have "str_indexOf ((concat as @ ?f1 @ concat bs) @ ?f2 @ concat cs) close_tag
      = Some (length (concat as @ ?f1 @ concat bs) + length z)"
    using ic by (simp add: fs)
  from index_in_piece [OF tags_not_Nil(2) this]
  have i2: "str_indexOf ?f2 close_tag = Some (length z)" .
  have nw: "\<not> str_includes w close_tag" using nc by (rule not_includes_left)
  have s2: "str_split ?f2 close_tag = z # w # []"
    using i2 nw by (simp add: str_split_at str_split_none tags_not_Nil)
  have inc2: "str_includes ?f2 close_tag" by (rule str_includes_self)
  \<comment> \<open>the chunks behind the close tag\<close>
  have "\<not> str_includes ((y @ concat bs @ ?f2) @ concat cs @ []) open_tag" using no by simp
  then have "\<forall>f \<in> set cs. \<not> str_includes f open_tag" by (rule plain_inside)
  moreover have "\<not> str_includes (w @ concat cs @ []) close_tag" using nc by simp
  then have "\<forall>f \<in> set cs. \<not> str_includes f close_tag" by (rule plain_inside)
  ultimately have pc: "\<forall>f \<in> set cs. \<not> str_includes f open_tag \<and> \<not> str_includes f close_tag"
    by simp
  have run: "stream_run fs
      = foldl deliver (deliver (foldl deliver (deliver (stream_run as) ?f1) bs) ?f2) cs"
    by (simp add: fs stream_run_append [of as])
  show "stream_buffers fs = (y @ concat bs @ z, concat as @ x @ w @ concat cs)"
    by (simp add: run stream_run_plain [OF pa] deliver_open [OF inc1 s1 yc]
        foldl_deliver_plain [OF pb] deliver_close [OF n2 inc2 s2] foldl_deliver_plain [OF pc]
        stream_buffers_def init_view_def init_closure_def)
  show "\<not> internalThinkMode (fst (stream_run fs))"
    by (simp add: run stream_run_plain [OF pa] deliver_open [OF inc1 s1 yc]
        foldl_deliver_plain [OF pb] deliver_close [OF n2 inc2 s2] foldl_deliver_plain [OF pc]
        init_view_def init_closure_def)
qed

text \<open>Both tags in one chunk.\<close>

lemma stream_block_one_chunk:
  assumes fs: "fs = as @ [x @ open_tag @ y @ close_tag @ w] @ cs"
    and oo: "occurrences (concat fs) open_tag = 1"
    and oc: "occurrences (concat fs) close_tag = 1"
  shows "stream_buffers fs = (y, concat as @ x @ w @ concat cs)"
    and "\<not> internalThinkMode (fst (stream_run fs))"
proof -
  let ?r = "y @ close_tag @ w"
  let ?f = "x @ open_tag @ ?r"
  let ?A' = "concat as @ x @ open_tag @ y"
  have eo: "concat fs = (concat as @ x) @ open_tag @ (?r @ concat cs)" by (simp add: fs)
  from occurrences_unique [OF tags_not_Nil(1) unbordered_open_tag oo [unfolded eo]]
  have io: "str_indexOf (concat fs) open_tag = Some (length (concat as) + length x)"
    and no: "\<not> str_includes (?r @ concat cs) open_tag" by (simp_all add: eo)
  have ec: "concat fs = ?A' @ close_tag @ (w @ concat cs)" by (simp add: fs)
  from occurrences_unique [OF tags_not_Nil(2) unbordered_close_tag oc [unfolded ec]]
  have ic: "str_indexOf (concat fs) close_tag = Some (length ?A')"
    and nc: "\<not> str_includes (w @ concat cs) close_tag" by (simp_all add: ec)
  \<comment> \<open>the chunks before the tags\<close>
  have e1: "concat fs = concat as @ (?f @ concat cs)" by (simp add: fs)
  have "\<forall>f \<in> set as. \<not> str_includes f open_tag"
    by (rule plain_before [OF tags_not_Nil(1) io [unfolded e1]]) simp
  moreover have "\<forall>f \<in> set as. \<not> str_includes f close_tag"
    by (rule plain_before [OF tags_not_Nil(2) ic [unfolded e1]]) simp
  ultimately have pa: "\<forall>f \<in> set as. \<not> str_includes f open_tag \<and> \<not> str_includes f close_tag"
    by simp
  \<comment> \<open>the chunk with the tags\<close>
  have "str_indexOf (concat as @ ?f @ concat cs) open_tag
      = Some (length (concat as) + length x)"
    using io by (simp add: fs)
  from index_in_piece [OF tags_not_Nil(1) this]
  have i1: "str_indexOf ?f open_tag = Some (length x)" .
  have nr: "\<not> str_includes ?r open_tag" using no by (rule not_includes_left)
  have s1: "str_split ?f open_tag = x # ?r # []"
    using i1 nr by (simp add: str_split_at str_split_none tags_not_Nil)
  have inc1: "str_includes ?f open_tag" by (rule str_includes_self)
  have "str_indexOf ((concat as @ x @ open_tag) @ ?r @ concat cs) close_tag
      = Some (length (concat as @ x @ open_tag) + length y)"
    using ic by (simp add: fs)
  from index_in_piece [OF tags_not_Nil(2) this]
  have i2: "str_indexOf ?r close_tag = Some (length y)" .
  have nw: "\<not> str_includes w close_tag" using nc by (rule not_includes_left)
  have s2: "str_split ?r close_tag = y # w # []"
    using i2 nw by (simp add: str_split_at str_split_none tags_not_Nil)
  have inc2: "str_includes ?r close_tag" by (rule str_includes_self)
  \<comment> \<open>the chunks behind the tags\<close>
  have "\<not> str_includes (?r @ concat cs @ []) open_tag" using no by simp
  then have "\<forall>f \<in> set cs. \<not> str_includes f open_tag" by (rule plain_inside)
  moreover have "\<not> str_includes (w @ concat cs @ []) close_tag" using nc by simp
  then have "\<forall>f \<in> set cs. \<not> str_includes f close_tag" by (rule plain_inside)
  ultimately have pc: "\<forall>f \<in> set cs. \<not> str_includes f open_tag \<and> \<not> str_includes f close_tag"
    by simp
  have run: "stream_run fs = foldl deliver (deliver (stream_run as) ?f) cs"
    by (simp add: fs stream_run_append [of as])
  show "stream_buffers fs = (y, concat as @ x @ w @ concat cs)"
    by (simp add: run stream_run_plain [OF pa] deliver_both [OF inc1 s1 inc2 s2]
        foldl_deliver_plain [OF pc] stream_buffers_def init_view_def init_closure_def)
  show "\<not> internalThinkMode (fst (stream_run fs))"
    by (simp add: run stream_run_plain [OF pa] deliver_both [OF inc1 s1 inc2 s2]
        foldl_deliver_plain [OF pc] init_view_def init_closure_def)
qed

lemma one_shot_block:
  assumes "s = pre @ open_tag @ t @ close_tag @ post"
    and "occurrences s open_tag = 1"
    and "occurrences s close_tag = 1"
  shows "one_shot s = Inr (t, pre @ post)"
  by (simp add: one_shot_def result_split_block [OF assms])

lemma appended_simps [simp]:
  "appended (AppendSummary t) = t" "appended (AppendThink t) = t"
  "appended (SetIsThinking b) = []" "appended (SetShowThink b) = []"
  by (simp_all add: appended_def)

text \<open>The text a chunk adds to the buffers is the chunk without its tags.\<close>

lemma chunk_appended:
  assumes "occurrences f open_tag \<le> 1" and "occurrences f close_tag \<le> 1"
  shows "concat (map appended (snd (onSummaryChunk cl f))) = without_tags f"
  using tags_not_Nil(1) assms(1)
proof (cases rule: occurrences_le1_cases)
  case none
  then have io: "str_indexOf f open_tag = None" by (simp add: str_includes_def)
  from tags_not_Nil(2) assms(2) show ?thesis
  proof (cases rule: occurrences_le1_cases)
    case none
    then have "str_indexOf f close_tag = None" by (simp add: str_includes_def)
    with io show ?thesis
      by (simp add: onSummaryChunk_plain [OF \<open>\<not> str_includes f open_tag\<close> none]
          without_tags_def remove_first_def)
  next
    case (one j)
    then have inc: "str_includes f close_tag" by (simp add: str_includes_def)
    from io one show ?thesis
      by (simp add: onSummaryChunk_close [OF \<open>\<not> str_includes f open_tag\<close> inc one(2)]
          without_tags_def remove_first_def)
  qed
next
  case (one i)
  let ?r = "drop (i + length open_tag) f"
  from one have inc: "str_includes f open_tag" by (simp add: str_includes_def)
  have "occurrences ?r close_tag \<le> 1"
    using tags_not_Nil(2) assms(2) by (rule occurrences_drop_le1)
  with tags_not_Nil(2) show ?thesis
  proof (cases rule: occurrences_le1_cases)
    case none
    then have "str_indexOf ?r close_tag = None" by (simp add: str_includes_def)
    with one(1) show ?thesis
      by (simp add: onSummaryChunk_open [OF inc one(2) none]
          without_tags_def remove_first_def)
  next
    case (one j)
    then have inc2: "str_includes ?r close_tag" by (simp add: str_includes_def)
    from \<open>str_indexOf f open_tag = Some i\<close> one(1) show ?thesis
      by (simp add: onSummaryChunk_both [OF inc \<open>str_split f open_tag = [take i f, ?r]\<close> inc2 one(2)]
          without_tags_def remove_first_def)
  qed
qed

lemma stream_log_appended:
  assumes "\<forall>f \<in> set fs. occurrences f open_tag \<le> 1 \<and> occurrences f close_tag \<le> 1"
  shows "concat (map appended (stream_log cl fs)) = concat (map without_tags fs)"
  using assms
proof (induction fs arbitrary: cl)
  case Nil
  then show ?case by simp
next
  case (Cons f fs)
  obtain cl' ups where step: "onSummaryChunk cl f = (cl', ups)" by (cases "onSummaryChunk cl f")
  from Cons.prems have "concat (map appended (snd (onSummaryChunk cl f))) = without_tags f"
    by (simp add: chunk_appended)
  with step have "concat (map appended ups) = without_tags f" by simp
  moreover from Cons have "concat (map appended (stream_log cl' fs)) = concat (map without_tags fs)"
    by simp
  ultimately show ?case by (simp add: step)
qed

lemma foldl_apply_update:
  "summaryText (foldl apply_update v ups) = summaryText v @ concat (map summary_part ups) \<and>
   thinkText (foldl apply_update v ups) = thinkText v @ concat (map think_part ups)"
proof (induction ups arbitrary: v)
  case Nil
  then show ?case by simp
next
  case (Cons u ups)
  then show ?case by (cases u) simp_all
qed

lemma buffers_from_log:
  "summaryText (snd (foldl deliver (cl, v) fs))
     = summaryText v @ concat (map summary_part (stream_log cl fs)) \<and>
   thinkText (snd (foldl deliver (cl, v) fs))
     = thinkText v @ concat (map think_part (stream_log cl fs))"
proof (induction fs arbitrary: cl v)
  case Nil
  then show ?case by simp
next
  case (Cons f fs)
  obtain cl' ups where step: "onSummaryChunk cl f = (cl', ups)" by (cases "onSummaryChunk cl f")
  then have d: "deliver (cl, v) f = (cl', foldl apply_update v ups)"
    by (simp add: deliver_def)
  show ?case
    by (simp add: d step Cons.IH foldl_apply_update)
qed

text \<open>Without an open tag in any chunk the run stays in normal mode.\<close>

lemma mode_without_open:
  assumes "\<not> str_includes f open_tag" and "\<not> internalThinkMode cl"
  shows "\<not> internalThinkMode (fst (onSummaryChunk cl f))"
proof (cases "str_includes f close_tag")
  case True
  then show ?thesis using assms(1) by (rule mode_after_close)
next
  case False
  with assms show ?thesis by (simp add: onSummaryChunk_plain)
qed

lemma stream_run_without_open:
  assumes "\<forall>g \<in> set fs. \<not> str_includes g open_tag"
  shows "\<not> internalThinkMode (fst (stream_run fs))"
  using assms
proof (induction fs rule: rev_induct)
  case Nil
  then show ?case by (simp add: stream_run_def init_closure_def)
next
  case (snoc f fs)
  then have "\<not> internalThinkMode (fst (stream_run fs))" and "\<not> str_includes f open_tag"
    by simp_all
  then have "\<not> internalThinkMode (fst (onSummaryChunk (fst (stream_run fs)) f))"
    by (simp add: mode_without_open)
  then show ?case by (simp add: stream_run_append fst_deliver)
qed

section \<open>Streaming against the one-shot split\<close>

text \<open>
  C1, as the source has it. When the text of the stream contains neither tag, or contains
  each tag exactly once with each tag whole within one chunk, the open tag first, the
  buffers at the end of the stream are the think content and the main content that the
  one-shot split finds in the whole text.
\<close>

theorem streaming_matches_one_shot:
  assumes "(\<not> str_includes (concat fs) open_tag \<and> \<not> str_includes (concat fs) close_tag) \<or>
           (occurrences (concat fs) open_tag = 1 \<and> occurrences (concat fs) close_tag = 1 \<and>
            (fs = as @ [x @ open_tag @ y] @ bs @ [z @ close_tag @ w] @ cs \<or>
             fs = as @ [x @ open_tag @ y @ close_tag @ w] @ cs))"
  shows "one_shot (concat fs) = Inr (stream_buffers fs)"
  using assms
proof (elim disjE conjE)
  assume n: "\<not> str_includes (concat fs) open_tag" "\<not> str_includes (concat fs) close_tag"
  then have "\<forall>f \<in> set fs. \<not> str_includes f open_tag \<and> \<not> str_includes f close_tag"
    using str_includes_concat by blast
  from stream_run_plain [OF this] have "stream_buffers fs = ([], concat fs)"
    by (simp add: stream_buffers_def init_view_def)
  moreover from n have "one_shot (concat fs) = Inr ([], concat fs)"
    by (simp add: one_shot_def result_split_def)
  ultimately show ?thesis by simp
next
  assume o: "occurrences (concat fs) open_tag = 1" "occurrences (concat fs) close_tag = 1"
    and fs: "fs = as @ [x @ open_tag @ y] @ bs @ [z @ close_tag @ w] @ cs"
  then have "concat fs = (concat as @ x) @ open_tag @ (y @ concat bs @ z) @ close_tag
      @ (w @ concat cs)" by simp
  from one_shot_block [OF this o] stream_block_two_chunks(1) [OF fs o]
  show ?thesis by simp
next
  assume o: "occurrences (concat fs) open_tag = 1" "occurrences (concat fs) close_tag = 1"
    and fs: "fs = as @ [x @ open_tag @ y @ close_tag @ w] @ cs"
  then have "concat fs = (concat as @ x) @ open_tag @ y @ close_tag @ (w @ concat cs)"
    by simp
  from one_shot_block [OF this o] stream_block_one_chunk(1) [OF fs o]
  show ?thesis by simp
qed

theorem streaming_matches_one_shot_witness:
  "occurrences (concat [''Hello '', ''<think>deep '', ''thoughts'', ''</think>wor'', ''ld''])
     open_tag = 1 \<and>
   occurrences (concat [''Hello '', ''<think>deep '', ''thoughts'', ''</think>wor'', ''ld''])
     close_tag = 1 \<and>
   [''Hello '', ''<think>deep '', ''thoughts'', ''</think>wor'', ''ld'']
     = [''Hello ''] @ [ [] @ open_tag @ ''deep ''] @ [''thoughts'']
         @ [ [] @ close_tag @ ''wor''] @ [''ld''] \<and>
   one_shot (concat [''Hello '', ''<think>deep '', ''thoughts'', ''</think>wor'', ''ld''])
     = Inr (stream_buffers [''Hello '', ''<think>deep '', ''thoughts'', ''</think>wor'', ''ld'']) \<and>
   stream_buffers [''Hello '', ''<think>deep '', ''thoughts'', ''</think>wor'', ''ld'']
     = (''deep thoughts'', ''Hello world'')"
proof -
  let ?fs = "[''Hello '', ''<think>deep '', ''thoughts'', ''</think>wor'', ''ld'']"
  have h1: "occurrences (concat ?fs) open_tag = 1" by code_simp
  have h2: "occurrences (concat ?fs) close_tag = 1" by code_simp
  have h3: "?fs = [''Hello ''] @ [ [] @ open_tag @ ''deep ''] @ [''thoughts'']
        @ [ [] @ close_tag @ ''wor''] @ [''ld'']"
    by (simp add: open_tag_def close_tag_def)
  have r: "stream_buffers ?fs = (''deep thoughts'', ''Hello world'')" by code_simp
  have "one_shot (concat ?fs) = Inr (stream_buffers ?fs)"
    by (rule streaming_matches_one_shot) (use h1 h2 h3 in blast)
  with h1 h2 h3 r show ?thesis by blast
qed

text \<open>
  C1 as it is stated fails when a chunk boundary cuts a tag: the one-shot split finds the
  think block, the stream does not find the cut open tag.
\<close>

theorem streaming_differs_from_one_shot_counterexample:
  "concat [''Hello <th'', ''ink>deep thoughts</think>world'']
     = ''Hello <think>deep thoughts</think>world'' \<and>
   one_shot ''Hello <think>deep thoughts</think>world''
     = Inr (''deep thoughts'', ''Hello world'') \<and>
   stream_buffers [''Hello <th'', ''ink>deep thoughts</think>world'']
     = (''ink>deep thoughts'', ''Hello <thworld'') \<and>
   one_shot (concat [''Hello <th'', ''ink>deep thoughts</think>world''])
     \<noteq> Inr (stream_buffers [''Hello <th'', ''ink>deep thoughts</think>world''])"
  by code_simp

section \<open>Tags cut by a chunk boundary\<close>

text \<open>
  C2, as the source has it. The handler keeps no pending text between chunks. Chunks none of which contains a whole tag are appended as they
  are to the buffer of the current mode, and the mode stays: a tag cut by a chunk boundary
  is not found, and all its characters reach a buffer.
\<close>

theorem split_tag_is_ordinary_text:
  assumes "\<forall>f \<in> set fs. \<not> str_includes f open_tag \<and> \<not> str_includes f close_tag"
  shows "stream_run (pre @ fs) =
           ((fst (stream_run pre))\<lparr>chunkCount := chunkCount (fst (stream_run pre)) + length fs\<rparr>,
            if internalThinkMode (fst (stream_run pre))
            then (snd (stream_run pre))\<lparr>thinkText := thinkText (snd (stream_run pre)) @ concat fs\<rparr>
            else (snd (stream_run pre))\<lparr>summaryText := summaryText (snd (stream_run pre)) @ concat fs\<rparr>)"
proof -
  have "stream_run (pre @ fs) = foldl deliver (fst (stream_run pre), snd (stream_run pre)) fs"
    by (simp add: stream_run_append)
  then show ?thesis by (simp only: foldl_deliver_plain [OF assms])
qed

theorem split_tag_is_ordinary_text_witness:
  "\<not> str_includes ''Hello <th'' open_tag \<and> \<not> str_includes ''Hello <th'' close_tag \<and>
   \<not> str_includes ''ink>deep '' open_tag \<and> \<not> str_includes ''ink>deep '' close_tag \<and>
   \<not> str_includes ''thoughts</thi'' open_tag \<and> \<not> str_includes ''thoughts</thi'' close_tag \<and>
   \<not> str_includes ''nk>world'' open_tag \<and> \<not> str_includes ''nk>world'' close_tag \<and>
   stream_run ([] @ [''Hello <th'', ''ink>deep '', ''thoughts</thi'', ''nk>world'']) =
     (\<lparr>internalThinkMode = False, chunkCount = 4\<rparr>,
      \<lparr>summaryText = ''Hello <think>deep thoughts</think>world'', thinkText = [],
       isThinking = False, showThink = True\<rparr>)"
proof -
  have h: "\<forall>f \<in> set [''Hello <th'', ''ink>deep '', ''thoughts</thi'', ''nk>world''].
      \<not> str_includes f open_tag \<and> \<not> str_includes f close_tag"
    by code_simp
  have r: "stream_run [] = (init_closure, init_view)" by (simp add: stream_run_def)
  show ?thesis
    using h split_tag_is_ordinary_text [OF h, of "[]"]
    by (simp add: r init_closure_def init_view_def)
qed

text \<open>
  C2 as it is stated fails on its own example: nothing reaches the think buffer and both
  tags stay in the summary buffer.
\<close>

theorem split_tag_example_counterexample:
  "stream_buffers [''Hello <th'', ''ink>deep '', ''thoughts</thi'', ''nk>world'']
     = ([], ''Hello <think>deep thoughts</think>world'') \<and>
   stream_buffers [''Hello <th'', ''ink>deep '', ''thoughts</thi'', ''nk>world'']
     \<noteq> (''deep thoughts'', ''Hello world'')"
  by code_simp

section \<open>The buffers against the input\<close>

text \<open>
  C3, as the source has it. While no chunk contains the same tag twice, after every prefix
  of the chunks the two buffers hold exactly what the updates appended to them, and the
  appended texts, in the order of the updates, are the chunks consumed so far without the
  tags that lie whole within a chunk: nothing else is added or dropped.
\<close>

theorem buffers_are_input_without_tags:
  assumes "\<forall>f \<in> set fs. occurrences f open_tag \<le> 1 \<and> occurrences f close_tag \<le> 1"
  shows "summaryText (snd (stream_run (take n fs)))
           = concat (map summary_part (stream_log init_closure (take n fs))) \<and>
         thinkText (snd (stream_run (take n fs)))
           = concat (map think_part (stream_log init_closure (take n fs))) \<and>
         concat (map appended (stream_log init_closure (take n fs)))
           = concat (map without_tags (take n fs))"
proof -
  have "\<forall>f \<in> set (take n fs). occurrences f open_tag \<le> 1 \<and> occurrences f close_tag \<le> 1"
    using assms by (meson in_set_takeD)
  then have "concat (map appended (stream_log init_closure (take n fs)))
      = concat (map without_tags (take n fs))"
    by (rule stream_log_appended)
  moreover from buffers_from_log [of init_closure init_view "take n fs"]
  have "summaryText (snd (stream_run (take n fs)))
           = concat (map summary_part (stream_log init_closure (take n fs)))"
    and "thinkText (snd (stream_run (take n fs)))
           = concat (map think_part (stream_log init_closure (take n fs)))"
    by (simp_all add: stream_run_def init_view_def)
  ultimately show ?thesis by simp
qed

theorem buffers_are_input_without_tags_witness:
  "occurrences ''a<think>b'' open_tag \<le> 1 \<and> occurrences ''a<think>b'' close_tag \<le> 1 \<and>
   occurrences ''c</think>d'' open_tag \<le> 1 \<and> occurrences ''c</think>d'' close_tag \<le> 1 \<and>
   occurrences ''e'' open_tag \<le> 1 \<and> occurrences ''e'' close_tag \<le> 1 \<and>
   concat (map appended (stream_log init_closure (take 2 [''a<think>b'', ''c</think>d'', ''e''])))
     = concat (map without_tags (take 2 [''a<think>b'', ''c</think>d'', ''e''])) \<and>
   concat (map without_tags (take 2 [''a<think>b'', ''c</think>d'', ''e''])) = ''abcd'' \<and>
   stream_buffers (take 2 [''a<think>b'', ''c</think>d'', ''e'']) = (''bc'', ''ad'')"
proof -
  have h: "\<forall>f \<in> set [''a<think>b'', ''c</think>d'', ''e''].
      occurrences f open_tag \<le> 1 \<and> occurrences f close_tag \<le> 1"
    by code_simp
  have r: "concat (map without_tags (take 2 [''a<think>b'', ''c</think>d'', ''e''])) = ''abcd''"
    by code_simp
  have b: "stream_buffers (take 2 [''a<think>b'', ''c</think>d'', ''e'']) = (''bc'', ''ad'')"
    by code_simp
  show ?thesis
    using h r b buffers_are_input_without_tags [OF h, of 2] by simp
qed

text \<open>
  C3 as it is stated fails when chunk boundaries cut the tags: both tags have come in
  full, and neither is removed.
\<close>

theorem split_tags_stay_in_buffers_counterexample:
  "concat [''<th'', ''ink>a</thi'', ''nk>b''] = ''<think>a</think>b'' \<and>
   concat (map appended (stream_log init_closure [''<th'', ''ink>a</thi'', ''nk>b'']))
     = ''<think>a</think>b'' \<and>
   concat (map appended (stream_log init_closure [''<th'', ''ink>a</thi'', ''nk>b'']))
     \<noteq> ''ab'' \<and>
   stream_buffers [''<th'', ''ink>a</thi'', ''nk>b''] = ([], ''<think>a</think>b'')"
  by code_simp

section \<open>The mode after a think block has been closed\<close>

text \<open>
  C4, as the source has it. The handler does not remember that a think block was closed:
  whatever came before, a chunk with an open tag and no close tag leaves it in thinking
  mode, a chunk with a close tag and no open tag leaves it in normal mode, and a chunk
  with neither tag keeps the mode.
\<close>

theorem mode_follows_latest_tag:
  "(str_includes f open_tag \<and> \<not> str_includes f close_tag
      \<longrightarrow> internalThinkMode (fst (stream_run (fs @ [f])))) \<and>
   (str_includes f close_tag \<and> \<not> str_includes f open_tag
      \<longrightarrow> \<not> internalThinkMode (fst (stream_run (fs @ [f])))) \<and>
   (\<not> str_includes f open_tag \<and> \<not> str_includes f close_tag
      \<longrightarrow> internalThinkMode (fst (stream_run (fs @ [f]))) = internalThinkMode (fst (stream_run fs)))"
proof -
  have "fst (stream_run (fs @ [f])) = fst (onSummaryChunk (fst (stream_run fs)) f)"
    by (simp add: stream_run_append fst_deliver)
  then show ?thesis
    by (simp add: mode_after_open mode_after_close onSummaryChunk_plain)
qed

theorem mode_follows_latest_tag_witness:
  "str_includes ''<think>c'' open_tag \<and> \<not> str_includes ''<think>c'' close_tag \<and>
   internalThinkMode (fst (stream_run ([''<think>a</think>b''] @ [''<think>c'']))) \<and>
   str_includes ''d</think>e'' close_tag \<and> \<not> str_includes ''d</think>e'' open_tag \<and>
   \<not> internalThinkMode (fst (stream_run ([''<think>a</think>b'', ''<think>c''] @ [''d</think>e'']))) \<and>
   \<not> str_includes ''f'' open_tag \<and> \<not> str_includes ''f'' close_tag \<and>
   internalThinkMode (fst (stream_run ([''<think>a''] @ [''f''])))
     = internalThinkMode (fst (stream_run [''<think>a'']))"
proof -
  have h1: "str_includes ''<think>c'' open_tag \<and> \<not> str_includes ''<think>c'' close_tag"
    by code_simp
  have h2: "str_includes ''d</think>e'' close_tag \<and> \<not> str_includes ''d</think>e'' open_tag"
    by code_simp
  have h3: "\<not> str_includes ''f'' open_tag \<and> \<not> str_includes ''f'' close_tag"
    by code_simp
  show ?thesis
    using h1 h2 h3
      mode_follows_latest_tag [of "''<think>c''" "[''<think>a</think>b'']"]
      mode_follows_latest_tag [of "''d</think>e''" "[''<think>a</think>b'', ''<think>c'']"]
      mode_follows_latest_tag [of "''f''" "[''<think>a'']"]
    by blast
qed

text \<open>
  C4 as it is stated fails: after a closed think block a second open tag starts thinking
  mode again and its text is added to the think buffer; a second close tag ends it again.
\<close>

theorem reentry_counterexample:
  "stream_buffers [''<think>a</think>b''] = (''a'', ''b'') \<and>
   \<not> internalThinkMode (fst (stream_run [''<think>a</think>b''])) \<and>
   internalThinkMode (fst (stream_run [''<think>a</think>b'', ''<think>c''])) \<and>
   stream_buffers [''<think>a</think>b'', ''<think>c''] = (''ac'', ''b'') \<and>
   \<not> internalThinkMode (fst (stream_run [''<think>a</think>b'', ''<think>c'', ''d</think>e'']))"
  by code_simp

section \<open>Completeness of the one-shot split\<close>

text \<open>
  C5. For a text with at most one open tag and at most one close tag, the open tag first
  when both occur, the one-shot split raises no error and putting the tags back gives the
  text. When both tags occur, the text is a text before the block, the open tag, a think
  text, the close tag and a text behind the block, and for every such reading of the text
  the split returns the think text as think content and the text before the block
  followed by the text behind it as main content, and reports a think block. When a tag is
  missing, the split returns an empty think content and the text itself, and reports no
  think block.
\<close>

theorem split_completeness:
  assumes "occurrences s open_tag \<le> 1"
    and "occurrences s close_tag \<le> 1"
    and "open_before_close s"
  shows "(str_includes s open_tag \<and> str_includes s close_tag \<longrightarrow>
            (\<exists>pre t post. s = pre @ open_tag @ t @ close_tag @ post \<and>
               result_split (Some s) = Inr (t, pre @ post, True))) \<and>
         (\<forall>pre t post. s = pre @ open_tag @ t @ close_tag @ post \<longrightarrow>
            result_split (Some s) = Inr (t, pre @ post, True)) \<and>
         (\<not> (str_includes s open_tag \<and> str_includes s close_tag) \<longrightarrow>
            result_split (Some s) = Inr ([], s, False))"
proof -
  have one: "occurrences s open_tag = 1 \<and> occurrences s close_tag = 1"
    if "str_includes s open_tag" and "str_includes s close_tag"
    using that assms(1,2) occurrences_zero_iff [OF tags_not_Nil(1), of s]
      occurrences_zero_iff [OF tags_not_Nil(2), of s] by simp
  have block: "result_split (Some s) = Inr (t, pre @ post, True)"
    if d: "s = pre @ open_tag @ t @ close_tag @ post" for pre t post
  proof -
    have "str_includes s open_tag" unfolding d by (rule str_includes_self)
    moreover have "s = (pre @ open_tag @ t) @ close_tag @ post" by (simp add: d)
    then have "str_includes s close_tag" using str_includes_self by metis
    ultimately have "occurrences s open_tag = 1" "occurrences s close_tag = 1"
      using one by simp_all
    with d show ?thesis by (rule result_split_block)
  qed
  have ex: "\<exists>pre t post. s = pre @ open_tag @ t @ close_tag @ post"
    if both: "str_includes s open_tag" "str_includes s close_tag"
  proof -
    from both obtain i j where i: "str_indexOf s open_tag = Some i"
      and j: "str_indexOf s close_tag = Some j"
      by (auto simp: str_includes_def)
    with assms(3) have "i < j" by (simp add: open_before_close_def)
    from close_not_inside_open [OF str_indexOf_prefix [OF i] str_indexOf_prefix [OF j] this]
    have ij: "i + length open_tag \<le> j" .
    let ?rest = "drop (i + length open_tag) s"
    from str_indexOf_drop [OF j ij]
    have ir: "str_indexOf ?rest close_tag = Some (j - (i + length open_tag))" .
    from str_indexOf_decomp [OF i] have d1: "s = take i s @ open_tag @ ?rest" .
    from str_indexOf_decomp [OF ir]
    obtain t post where "?rest = t @ close_tag @ post" by blast
    with d1 have "s = take i s @ open_tag @ t @ close_tag @ post" by simp
    then show ?thesis by blast
  qed
  have none: "result_split (Some s) = Inr ([], s, False)"
    if "\<not> (str_includes s open_tag \<and> str_includes s close_tag)"
    using that by (auto simp: result_split_def)
  from block ex none show ?thesis by blast
qed

theorem split_completeness_witness:
  "occurrences ''a<think>b</think>c'' open_tag \<le> 1 \<and>
   occurrences ''a<think>b</think>c'' close_tag \<le> 1 \<and>
   open_before_close ''a<think>b</think>c'' \<and>
   ''a<think>b</think>c'' = ''a'' @ open_tag @ ''b'' @ close_tag @ ''c'' \<and>
   result_split (Some ''a<think>b</think>c'') = Inr (''b'', ''a'' @ ''c'', True) \<and>
   occurrences ''a<think>b'' open_tag \<le> 1 \<and>
   occurrences ''a<think>b'' close_tag \<le> 1 \<and>
   open_before_close ''a<think>b'' \<and>
   \<not> str_includes ''a<think>b'' close_tag \<and>
   result_split (Some ''a<think>b'') = Inr ([], ''a<think>b'', False)"
proof -
  have h1: "occurrences ''a<think>b</think>c'' open_tag \<le> 1" by code_simp
  have h2: "occurrences ''a<think>b</think>c'' close_tag \<le> 1" by code_simp
  have h3: "open_before_close ''a<think>b</think>c''" by code_simp
  have d: "''a<think>b</think>c'' = ''a'' @ open_tag @ ''b'' @ close_tag @ ''c''"
    by (simp add: open_tag_def close_tag_def)
  have k1: "occurrences ''a<think>b'' open_tag \<le> 1" by code_simp
  have k2: "occurrences ''a<think>b'' close_tag \<le> 1" by code_simp
  have k3: "open_before_close ''a<think>b''" by code_simp
  have k4: "\<not> str_includes ''a<think>b'' close_tag" by code_simp
  from split_completeness [OF h1 h2 h3] d
  have r1: "result_split (Some ''a<think>b</think>c'') = Inr (''b'', ''a'' @ ''c'', True)"
    by blast
  from split_completeness [OF k1 k2 k3] k4
  have r2: "result_split (Some ''a<think>b'') = Inr ([], ''a<think>b'', False)"
    by blast
  from h1 h2 h3 d k1 k2 k3 k4 r1 r2 show ?thesis by blast
qed

section \<open>A think block that is never closed\<close>

text \<open>
  C6, as the source has it. When the text of the stream contains the open tag exactly once,
  whole within one chunk, and never the close tag, the run ends in thinking mode with the
  thinking flag of the page set; the think buffer holds all text behind the tag and the
  summary buffer all text before it.
\<close>

theorem unclosed_think_block:
  assumes "fs = as @ [x @ open_tag @ y] @ bs"
    and "occurrences (concat fs) open_tag = 1"
    and "\<not> str_includes (concat fs) close_tag"
  shows "internalThinkMode (fst (stream_run fs)) \<and>
         isThinking (snd (stream_run fs)) \<and>
         stream_buffers fs = (y @ concat bs, concat as @ x)"
proof -
  let ?f = "x @ open_tag @ y"
  have t: "concat fs = (concat as @ x) @ open_tag @ (y @ concat bs)"
    by (simp add: assms(1))
  from occurrences_unique [OF tags_not_Nil(1) unbordered_open_tag assms(2) [unfolded t]]
  have idx: "str_indexOf (concat fs) open_tag = Some (length (concat as) + length x)"
    and after: "\<not> str_includes (y @ concat bs) open_tag"
    by (simp_all add: t)
  have noclose: "\<forall>f \<in> set fs. \<not> str_includes f close_tag"
    using assms(3) str_includes_concat by blast
  have "concat fs = concat as @ (?f @ concat bs)" by (simp add: assms(1))
  with idx have "str_indexOf (concat as @ (?f @ concat bs)) open_tag
      = Some (length (concat as) + length x)" by simp
  from plain_before [OF tags_not_Nil(1) this]
  have "\<forall>f \<in> set as. \<not> str_includes f open_tag" by simp
  with noclose have pa: "\<forall>f \<in> set as. \<not> str_includes f open_tag \<and> \<not> str_includes f close_tag"
    by (simp add: assms(1))
  have "\<forall>f \<in> set bs. \<not> str_includes f open_tag"
    using plain_inside [of y bs "[]" open_tag] after by simp
  with noclose have pb: "\<forall>f \<in> set bs. \<not> str_includes f open_tag \<and> \<not> str_includes f close_tag"
    by (simp add: assms(1))
  have run_as: "stream_run as =
      (init_closure\<lparr>chunkCount := chunkCount init_closure + length as\<rparr>,
       init_view\<lparr>summaryText := summaryText init_view @ concat as\<rparr>)"
    unfolding stream_run_def using pa by (simp add: foldl_deliver_plain init_closure_def)
  have "concat fs = concat as @ ?f @ concat bs" by (simp add: assms(1))
  with idx have "str_indexOf (concat as @ ?f @ concat bs) open_tag
      = Some (length (concat as) + length x)" by simp
  from index_in_piece [OF tags_not_Nil(1) this]
  have fi: "str_indexOf ?f open_tag = Some (length x)" .
  have ny: "\<not> str_includes y open_tag" using after by (rule not_includes_left)
  have sp: "str_split ?f open_tag = x # y # []"
    using fi ny by (simp add: str_split_at str_split_none tags_not_Nil)
  have inc: "str_includes ?f open_tag" by (rule str_includes_self)
  have yc: "\<not> str_includes y close_tag"
  proof -
    have "\<not> str_includes ?f close_tag" using noclose by (simp add: assms(1))
    then have "\<not> str_includes (open_tag @ y) close_tag" by (rule not_includes_right)
    then show ?thesis by (rule not_includes_right)
  qed
  have "stream_run fs = foldl deliver (deliver (stream_run as) ?f) bs"
    by (simp add: assms(1) stream_run_append)
  then show ?thesis
    by (simp add: run_as deliver_open [OF inc sp yc] foldl_deliver_plain [OF pb]
        stream_buffers_def init_view_def init_closure_def)
qed

theorem unclosed_think_block_witness:
  "[''<think>'', ''still reasoning''] = [] @ [ [] @ open_tag @ [] ] @ [''still reasoning''] \<and>
   occurrences (concat [''<think>'', ''still reasoning'']) open_tag = 1 \<and>
   \<not> str_includes (concat [''<think>'', ''still reasoning'']) close_tag \<and>
   internalThinkMode (fst (stream_run [''<think>'', ''still reasoning''])) \<and>
   isThinking (snd (stream_run [''<think>'', ''still reasoning''])) \<and>
   stream_buffers [''<think>'', ''still reasoning''] = (''still reasoning'', [])"
proof -
  have h1: "[''<think>'', ''still reasoning''] = [] @ [ [] @ open_tag @ [] ] @ [''still reasoning'']"
    by (simp add: open_tag_def)
  have h2: "occurrences (concat [''<think>'', ''still reasoning'']) open_tag = 1"
    by code_simp
  have h3: "\<not> str_includes (concat [''<think>'', ''still reasoning'']) close_tag"
    by code_simp
  show ?thesis
    using h1 h2 h3 unclosed_think_block [OF h1 h2 h3] by simp
qed

text \<open>
  C6 as it is stated fails when the only open tag of the stream is cut by a chunk
  boundary: the run ends in normal mode and the whole text is in the summary buffer.
\<close>

theorem unclosed_split_tag_counterexample:
  "concat [''<th'', ''ink>still reasoning''] = ''<think>still reasoning'' \<and>
   \<not> internalThinkMode (fst (stream_run [''<th'', ''ink>still reasoning''])) \<and>
   stream_buffers [''<th'', ''ink>still reasoning''] = ([], ''<think>still reasoning'')"
  by code_simp

section \<open>A close tag without an open tag\<close>

text \<open>
  C7, as the source has it. Take a chunk that contains the close tag once and the open tag
  at most once, coming when no earlier chunk contained an open tag, so that the run is in
  normal mode. No error is raised: the content that the close tag is looked for in is
  defined. When the chunk has no open tag, the close tag is matched, since the handler
  looks for it whatever the mode is (line 204): the text of the chunk before the tag goes
  to the think buffer, the tag is removed, the text behind it goes to the summary buffer,
  and the mode stays normal. When the chunk has its open tag behind the close tag, the open
  tag is treated first (lines 190 to 200) and the close tag is not matched: it goes to the
  summary buffer with all the text before the open tag, the text behind the open tag goes
  to the think buffer, and the run is in thinking mode.
\<close>

theorem stray_close_tag_is_matched:
  assumes "\<forall>g \<in> set fs. \<not> str_includes g open_tag"
    and "occurrences f close_tag = 1"
    and "occurrences f open_tag \<le> 1"
    and "str_indexOf f close_tag = Some j"
  shows "\<not> internalThinkMode (fst (stream_run fs)) \<and>
         (\<exists>c. snd (snd (detect_open (internalThinkMode (fst (stream_run fs))) f)) = Some c) \<and>
         (\<not> str_includes f open_tag \<longrightarrow>
            stream_buffers (fs @ [f])
              = (fst (stream_buffers fs) @ take j f,
                 snd (stream_buffers fs) @ drop (j + length close_tag) f) \<and>
            \<not> internalThinkMode (fst (stream_run (fs @ [f]))) \<and>
            \<not> isThinking (snd (stream_run (fs @ [f])))) \<and>
         (\<forall>i. str_indexOf f open_tag = Some i \<and> j < i \<longrightarrow>
            stream_buffers (fs @ [f])
              = (fst (stream_buffers fs) @ drop (i + length open_tag) f,
                 snd (stream_buffers fs) @ take i f) \<and>
            internalThinkMode (fst (stream_run (fs @ [f]))) \<and>
            isThinking (snd (stream_run (fs @ [f]))))"
proof -
  from occurrences_one [OF tags_not_Nil(2) assms(2)] assms(4)
  have nc: "\<not> str_includes (drop (j + length close_tag) f) close_tag"
    and sc: "str_split f close_tag = [take j f, drop (j + length close_tag) f]"
    by auto
  have incc: "str_includes f close_tag" using assms(4) by (simp add: str_includes_def)
  obtain cl v where st: "stream_run fs = (cl, v)" by (cases "stream_run fs")
  have run: "stream_run (fs @ [f]) = deliver (cl, v) f"
    by (simp add: stream_run_append st)
  have before: "\<not> internalThinkMode (fst (stream_run fs))"
    using assms(1) by (rule stream_run_without_open)
  have noerr: "\<exists>c. snd (snd (detect_open (internalThinkMode (fst (stream_run fs))) f)) = Some c"
    by (rule detect_open_content_defined)
  have a: "stream_buffers (fs @ [f])
              = (fst (stream_buffers fs) @ take j f,
                 snd (stream_buffers fs) @ drop (j + length close_tag) f) \<and>
            \<not> internalThinkMode (fst (stream_run (fs @ [f]))) \<and>
            \<not> isThinking (snd (stream_run (fs @ [f])))"
    if no: "\<not> str_includes f open_tag"
    by (simp add: run deliver_close [OF no incc sc] stream_buffers_def st)
  have b: "stream_buffers (fs @ [f])
              = (fst (stream_buffers fs) @ drop (i + length open_tag) f,
                 snd (stream_buffers fs) @ take i f) \<and>
            internalThinkMode (fst (stream_run (fs @ [f]))) \<and>
            isThinking (snd (stream_run (fs @ [f])))"
    if i: "str_indexOf f open_tag = Some i" and ji: "j < i" for i
  proof -
    have inco: "str_includes f open_tag" using i by (simp add: str_includes_def)
    with assms(3) have "occurrences f open_tag = 1"
      using occurrences_zero_iff [OF tags_not_Nil(1), of f] by simp
    from occurrences_one [OF tags_not_Nil(1) this] i
    have so: "str_split f open_tag = [take i f, drop (i + length open_tag) f]" by auto
    have "drop (i + length open_tag) f
        = drop (i + length open_tag - (j + length close_tag)) (drop (j + length close_tag) f)"
      using ji by (simp add: length_tags ac_simps)
    with nc have cc: "\<not> str_includes (drop (i + length open_tag) f) close_tag"
      using str_includes_drop by metis
    show ?thesis
      by (simp add: run deliver_open [OF inco so cc] stream_buffers_def st)
  qed
  from before noerr a b show ?thesis by blast
qed

theorem stray_close_tag_is_matched_witness:
  "\<not> str_includes ''w'' open_tag \<and>
   occurrences ''x</think>y'' close_tag = 1 \<and>
   occurrences ''x</think>y'' open_tag \<le> 1 \<and>
   str_indexOf ''x</think>y'' close_tag = Some 1 \<and>
   \<not> str_includes ''x</think>y'' open_tag \<and>
   stream_buffers ([''w''] @ [''x</think>y'']) = (''x'', ''wy'') \<and>
   \<not> internalThinkMode (fst (stream_run ([''w''] @ [''x</think>y'']))) \<and>
   occurrences ''x</think>y<think>z'' close_tag = 1 \<and>
   occurrences ''x</think>y<think>z'' open_tag \<le> 1 \<and>
   str_indexOf ''x</think>y<think>z'' close_tag = Some 1 \<and>
   str_indexOf ''x</think>y<think>z'' open_tag = Some 10 \<and>
   stream_buffers ([''w''] @ [''x</think>y<think>z'']) = (''z'', ''wx</think>y'') \<and>
   internalThinkMode (fst (stream_run ([''w''] @ [''x</think>y<think>z''])))"
proof -
  have h1: "\<forall>g \<in> set [''w'']. \<not> str_includes g open_tag" by code_simp
  have h2: "occurrences ''x</think>y'' close_tag = 1" by code_simp
  have h3: "occurrences ''x</think>y'' open_tag \<le> 1" by code_simp
  have h4: "str_indexOf ''x</think>y'' close_tag = Some 1" by code_simp
  have h5: "\<not> str_includes ''x</think>y'' open_tag" by code_simp
  have k2: "occurrences ''x</think>y<think>z'' close_tag = 1" by code_simp
  have k3: "occurrences ''x</think>y<think>z'' open_tag \<le> 1" by code_simp
  have k4: "str_indexOf ''x</think>y<think>z'' close_tag = Some 1" by code_simp
  have k5: "str_indexOf ''x</think>y<think>z'' open_tag = Some 10" by code_simp
  have b: "stream_buffers [''w''] = ([], ''w'')" by code_simp
  from stray_close_tag_is_matched [OF h1 h2 h3 h4] h5 b
  have r1: "stream_buffers ([''w''] @ [''x</think>y'']) = (''x'', ''wy'') \<and>
      \<not> internalThinkMode (fst (stream_run ([''w''] @ [''x</think>y''])))"
    by (simp add: length_tags)
  from stray_close_tag_is_matched [OF h1 k2 k3 k4] k5 b
  have r2: "stream_buffers ([''w''] @ [''x</think>y<think>z'']) = (''z'', ''wx</think>y'') \<and>
      internalThinkMode (fst (stream_run ([''w''] @ [''x</think>y<think>z''])))"
    by (simp add: length_tags)
  from h1 h2 h3 h4 h5 k2 k3 k4 k5 r1 r2 show ?thesis by simp
qed

text \<open>
  C7 as it is stated fails: the text before a stray close tag is not kept as summary text,
  and the tag does not stay in the summary.
\<close>

theorem stray_close_tag_counterexample:
  "\<not> str_includes ''x</think>y'' open_tag \<and>
   stream_buffers [''x</think>y''] = (''x'', ''y'') \<and>
   stream_buffers [''x</think>y''] \<noteq> ([], ''x</think>y'')"
  by code_simp

section \<open>Text without tags\<close>

text \<open>
  C8. A text that contains neither tag, cut into chunks in any way, leaves the think buffer
  empty and the summary buffer equal to the text, and the stream stays in normal mode; the
  one-shot split of the same text finds no think block and shows the text unchanged.
\<close>

theorem no_markers_no_split:
  assumes "\<not> str_includes (concat fs) open_tag" and "\<not> str_includes (concat fs) close_tag"
  shows "stream_buffers fs = ([], concat fs) \<and>
         \<not> internalThinkMode (fst (stream_run fs)) \<and>
         result_split (Some (concat fs)) = Inr ([], concat fs, False) \<and>
         one_shot (concat fs) = Inr ([], concat fs)"
proof -
  have "\<forall>f \<in> set fs. \<not> str_includes f open_tag \<and> \<not> str_includes f close_tag"
    using assms str_includes_concat by blast
  then have "stream_run fs =
      (init_closure\<lparr>chunkCount := chunkCount init_closure + length fs\<rparr>,
       init_view\<lparr>summaryText := summaryText init_view @ concat fs\<rparr>)"
    unfolding stream_run_def by (simp add: foldl_deliver_plain init_closure_def)
  then have "stream_buffers fs = ([], concat fs)" "\<not> internalThinkMode (fst (stream_run fs))"
    by (simp_all add: stream_buffers_def init_view_def init_closure_def)
  moreover have r: "result_split (Some (concat fs)) = Inr ([], concat fs, False)"
    using assms by (simp add: result_split_def)
  moreover have "one_shot (concat fs) = Inr ([], concat fs)"
    by (simp add: one_shot_def r)
  ultimately show ?thesis by simp
qed

theorem no_markers_no_split_witness:
  "\<not> str_includes (concat [''plain'', '' text'']) open_tag \<and>
   \<not> str_includes (concat [''plain'', '' text'']) close_tag \<and>
   stream_buffers [''plain'', '' text''] = ([], ''plain text'') \<and>
   one_shot ''plain text'' = Inr ([], ''plain text'')"
proof -
  have h1: "\<not> str_includes (concat [''plain'', '' text'']) open_tag" by code_simp
  have h2: "\<not> str_includes (concat [''plain'', '' text'']) close_tag" by code_simp
  show ?thesis using h1 h2 no_markers_no_split [OF h1 h2] by simp
qed

section \<open>Starting a run without an API key\<close>

text \<open>
  C9. When a session is selected and the configured API key is missing or empty,
  \<^verbatim>\<open>handleGenerate\<close> ends with no effect at all: no handler is subscribed and no
  generation request is sent. The error box shows the message of line 163, the page is not
  generating, and no result is shown.
\<close>

theorem missing_api_key_fails_fast:
  assumes "sessionId p \<noteq> []" and "\<not> truthy (aiApiKey cfg)"
  shows "snd (handleGenerate cfg service p) = [] \<and>
         error (fst (handleGenerate cfg service p)) = ApiKeyMissing \<and>
         \<not> isGenerating (fst (handleGenerate cfg service p)) \<and>
         result (fst (handleGenerate cfg service p)) = None"
  using assms by (simp add: handleGenerate_def Let_def)

theorem missing_api_key_fails_fast_witness:
  "sessionId sample_page \<noteq> [] \<and> \<not> truthy (aiApiKey (sample_config (Some []))) \<and>
   snd (handleGenerate (sample_config (Some [])) sample_service sample_page) = [] \<and>
   error (fst (handleGenerate (sample_config (Some [])) sample_service sample_page))
     = ApiKeyMissing \<and>
   \<not> isGenerating (fst (handleGenerate (sample_config (Some [])) sample_service sample_page))"
proof -
  have h1: "sessionId sample_page \<noteq> []" by (simp add: sample_page_def)
  have h2: "\<not> truthy (aiApiKey (sample_config (Some [])))" by (simp add: sample_config_def)
  show ?thesis using h1 h2 missing_api_key_fails_fast [OF h1 h2, of sample_service] by simp
qed

section \<open>Copying a stored summary\<close>

text \<open>
  C10, as the source has it. For a stored text that contains the open tag once and, behind
  it, the close tag once, the copy button takes exactly the text behind the close tag and
  drops the text before the open tag, while the result panel shows the text before the open
  tag followed by the text behind the close tag.
\<close>

theorem copy_drops_text_before_think_block:
  assumes "s = pre @ open_tag @ t @ close_tag @ post"
    and "occurrences s open_tag = 1"
    and "occurrences s close_tag = 1"
  shows "copy_content (Some s) = Some post \<and>
         result_split (Some s) = Inr (t, pre @ post, True)"
proof -
  have s2: "s = (pre @ open_tag @ t) @ close_tag @ post" by (simp add: assms(1))
  from occurrences_unique [OF tags_not_Nil(2) unbordered_close_tag, of "pre @ open_tag @ t" post]
    assms(3) s2
  have ic: "str_indexOf s close_tag = Some (length (pre @ open_tag @ t))"
    and nc: "\<not> str_includes post close_tag" by simp_all
  have inc_o: "str_includes s open_tag" unfolding assms(1) by (rule str_includes_self)
  have inc_c: "str_includes s close_tag" using ic by (simp add: str_includes_def)
  have "drop (length (pre @ open_tag @ t) + length close_tag) s = post"
    by (simp add: assms(1))
  moreover have "take (length (pre @ open_tag @ t)) s = pre @ open_tag @ t"
    by (simp add: assms(1))
  ultimately have sc: "str_split s close_tag = [pre @ open_tag @ t, post]"
    using ic nc by (simp add: str_split_at [OF tags_not_Nil(2) ic] str_split_none tags_not_Nil)
  have "s \<noteq> []" using assms(1) by (simp add: open_tag_def)
  then have "copy_content (Some s) = Some post"
    by (simp add: copy_content_def inc_o inc_c sc)
  with result_split_block [OF assms] show ?thesis by simp
qed

theorem copy_drops_text_before_think_block_witness:
  "''intro<think>why</think>answer'' = ''intro'' @ open_tag @ ''why'' @ close_tag @ ''answer'' \<and>
   occurrences ''intro<think>why</think>answer'' open_tag = 1 \<and>
   occurrences ''intro<think>why</think>answer'' close_tag = 1 \<and>
   copy_content (Some ''intro<think>why</think>answer'') = Some ''answer'' \<and>
   result_split (Some ''intro<think>why</think>answer'') = Inr (''why'', ''introanswer'', True)"
proof -
  have h1: "''intro<think>why</think>answer'' = ''intro'' @ open_tag @ ''why'' @ close_tag @ ''answer''"
    by (simp add: open_tag_def close_tag_def)
  have h2: "occurrences ''intro<think>why</think>answer'' open_tag = 1" by code_simp
  have h3: "occurrences ''intro<think>why</think>answer'' close_tag = 1" by code_simp
  show ?thesis
    using h1 h2 h3 copy_drops_text_before_think_block [OF h1 h2 h3] by simp
qed

text \<open>
  C10 as it is stated fails when the close tag comes first: the text between the two tags
  precedes the open tag, and the copy button keeps it together with the open tag.
\<close>

theorem copy_keeps_text_before_open_tag_counterexample:
  "str_includes ''x</think>y<think>z'' open_tag \<and>
   str_includes ''x</think>y<think>z'' close_tag \<and>
   str_indexOf ''x</think>y<think>z'' open_tag = Some 10 \<and>
   take 10 ''x</think>y<think>z'' = ''x</think>y'' \<and>
   copy_content (Some ''x</think>y<think>z'') = Some ''y<think>z'' \<and>
   result_split (Some ''x</think>y<think>z'') = Inr (''z'', ''x</think>y'', True)"
  by code_simp

end
